theory Spec2Isabelle
  imports Complex_Main "HOL-Library.Product_Lexorder" "HOL-Library.Char_ord" "HOL-Library.List_Lexorder"
begin

text \<open>
  A verification of the factor algebra of the notebook \<^verbatim>\<open>2-ImplementationFactor.ipynb\<close>:
  the class \<^verbatim>\<open>factor\<close> and the functions \<^verbatim>\<open>factor_product\<close>,
  \<^verbatim>\<open>factor_marginalization\<close>, \<^verbatim>\<open>factor_reduction\<close> and \<^verbatim>\<open>joint_distribution\<close>,
  embedded as functions that return either an error or a factor.
\<close>

section \<open>Errors\<close>

text \<open>
  Every failure the notebook signals itself is \<^verbatim>\<open>raise Exception(message)\<close>; this is what
  the specification calls \<open>InvalidArgument\<close> with a reason. The other constructors are
  the exceptions that Python and numpy raise on their own.
\<close>

datatype error = Exception string | IndexError | ValueError | AxisError | TypeError

fun is_InvalidArgument :: "error + 'a \<Rightarrow> bool" where
  "is_InvalidArgument (Inl (Exception msg)) = True"
| "is_InvalidArgument _ = False"

section \<open>The numpy arrays the factors are built on\<close>

text \<open>
  The notebook computes with numpy, a library outside the notebook; the functions it
  calls are modelled here after numpy's documented behaviour. An array is its shape
  and its elements in row-major (C) order, as numpy stores a freshly built array. The
  element type is any type with the arithmetic an operation needs: the rounding of
  floating-point numbers is not modelled.
\<close>

datatype 'a ndarray = NDArray (nd_shape: "nat list") (nd_data: "'a list")

definition ndim :: "'a ndarray \<Rightarrow> nat" where
  "ndim a = length (nd_shape a)"

definition nd_wf :: "'a ndarray \<Rightarrow> bool" where
  "nd_wf a = (length (nd_data a) = prod_list (nd_shape a))"

definition valid_index :: "nat list \<Rightarrow> nat list \<Rightarrow> bool" where
  "valid_index sh idx = list_all2 (\<lambda>i n. i < n) idx sh"

fun flat_index :: "nat list \<Rightarrow> nat list \<Rightarrow> nat" where
  "flat_index (n # sh) (i # idx) = i * prod_list sh + flat_index sh idx"
| "flat_index _ _ = 0"

fun all_indices :: "nat list \<Rightarrow> nat list list" where
  "all_indices [] = [Nil]"
| "all_indices (n # sh) = concat (map (\<lambda>i. map ((#) i) (all_indices sh)) [0..<n])"

text \<open>\<open>item a idx\<close> is \<^verbatim>\<open>a[tuple(idx)]\<close> for an index inside the shape.\<close>

definition item :: "'a ndarray \<Rightarrow> nat list \<Rightarrow> 'a" where
  "item a idx = nd_data a ! flat_index (nd_shape a) idx"

text \<open>The array of a given shape whose entry at each index is given by a function.\<close>

definition tabulate :: "nat list \<Rightarrow> (nat list \<Rightarrow> 'a) \<Rightarrow> 'a ndarray" where
  "tabulate sh f = NDArray sh (map f (all_indices sh))"

text \<open>The position of the first occurrence of a value in a list.\<close>

fun index_of :: "'b list \<Rightarrow> 'b \<Rightarrow> nat" where
  "index_of [] v = 0"
| "index_of (x # xs) v = (if x = v then 0 else Suc (index_of xs v))"

subsection \<open>Set routines on one-dimensional arrays\<close>

text \<open>
  \<^verbatim>\<open>np.intersect1d(ar1, ar2, return_indices=True)\<close>: the sorted, unique values that are in
  both arrays, and the indices of their first occurrences in each.
\<close>

definition intersect1d :: "'v::linorder list \<Rightarrow> 'v list \<Rightarrow> 'v list \<times> nat list \<times> nat list" where
  "intersect1d ar1 ar2 =
     (let int1d = filter (\<lambda>v. v \<in> set ar2) (sort (remdups ar1))
      in (int1d, map (index_of ar1) int1d, map (index_of ar2) int1d))"

text \<open>
  \<^verbatim>\<open>np.setdiff1d(ar1, ar2, assume_unique=True)\<close>: the values of \<open>ar1\<close> that are not in
  \<open>ar2\<close>, in the order of \<open>ar1\<close>. With \<open>assume_unique\<close> the caller promises that \<open>ar1\<close>
  has no duplicates; numpy leaves the result open otherwise.
\<close>

definition setdiff1d :: "'v list \<Rightarrow> 'v list \<Rightarrow> 'v list" where
  "setdiff1d ar1 ar2 = filter (\<lambda>v. v \<notin> set ar2) ar1"

text \<open>\<^verbatim>\<open>np.isin(element, test_elements, invert=...)\<close> and \<^verbatim>\<open>np.in1d\<close>.\<close>

definition isin :: "'v list \<Rightarrow> 'v list \<Rightarrow> bool \<Rightarrow> bool list" where
  "isin element test_elements invert = map (\<lambda>v. (v \<in> set test_elements) \<noteq> invert) element"

text \<open>\<^verbatim>\<open>np.where(mask)[0]\<close>: the positions that hold \<open>True\<close>.\<close>

definition np_where :: "bool list \<Rightarrow> nat list" where
  "np_where bs = filter (\<lambda>k. bs ! k) [0..<length bs]"

text \<open>\<^verbatim>\<open>np.sum(mask)\<close> of a boolean array: the number of \<open>True\<close>.\<close>

definition count_true :: "bool list \<Rightarrow> nat" where
  "count_true bs = length (filter (\<lambda>b. b) bs)"

definition arange :: "nat \<Rightarrow> int list" where
  "arange n = map int [0..<n]"

subsection \<open>Assignment through a mask and through an index array\<close>

text \<open>
  \<^verbatim>\<open>a[mask] = values\<close>: the positions where the mask holds receive the values in order.
  The notebook always passes as many values as the mask has \<open>True\<close>.
\<close>

fun assign_mask :: "'b list \<Rightarrow> bool list \<Rightarrow> 'b list \<Rightarrow> 'b list" where
  "assign_mask (a # as) (True # ms) (v # vs) = v # assign_mask as ms vs"
| "assign_mask (a # as) (False # ms) vs = a # assign_mask as ms vs"
| "assign_mask as _ _ = as"

text \<open>\<^verbatim>\<open>a[idx] = values\<close>: position \<open>idx[m]\<close> receives \<open>values[m]\<close>.\<close>

definition assign_index :: "'b list \<Rightarrow> nat list \<Rightarrow> 'b list \<Rightarrow> 'b list" where
  "assign_index a idx vals = fold (\<lambda>(i, v) a. a[i := v]) (zip idx vals) a"

subsection \<open>Moving axes\<close>

definition normalize_axis_index :: "int \<Rightarrow> nat \<Rightarrow> error + nat" where
  "normalize_axis_index ax n =
     (if - int n \<le> ax \<and> ax < int n then Inr (nat (if ax < 0 then ax + int n else ax))
      else Inl AxisError)"

fun collect :: "(error + 'b) list \<Rightarrow> error + 'b list" where
  "collect [] = Inr []"
| "collect (Inl e # rs) = Inl e"
| "collect (Inr v # rs) = (case collect rs of Inl e \<Rightarrow> Inl e | Inr vs \<Rightarrow> Inr (v # vs))"

definition normalize_axis_tuple :: "int list \<Rightarrow> nat \<Rightarrow> error + nat list" where
  "normalize_axis_tuple axes n =
     (case collect (map (\<lambda>ax. normalize_axis_index ax n) axes) of
        Inl e \<Rightarrow> Inl e
      | Inr as \<Rightarrow> if distinct as then Inr as else Inl ValueError)"

text \<open>
  \<^verbatim>\<open>a.transpose(axes)\<close>: axis \<open>d\<close> of the result is axis \<open>axes[d]\<close> of \<open>a\<close>, so the entry
  of the result at \<open>j\<close> is the entry of \<open>a\<close> at the \<open>i\<close> with \<open>i[axes[d]] = j[d]\<close>.
\<close>

definition np_transpose :: "'a ndarray \<Rightarrow> nat list \<Rightarrow> 'a ndarray" where
  "np_transpose a axes =
     tabulate (map (\<lambda>d. nd_shape a ! d) axes)
       (\<lambda>j. item a (map (\<lambda>k. j ! index_of axes k) [0..<length axes]))"

text \<open>Python's \<^verbatim>\<open>list.insert(i, x)\<close>.\<close>

definition list_insert :: "nat \<Rightarrow> 'b \<Rightarrow> 'b list \<Rightarrow> 'b list" where
  "list_insert i x xs = take i xs @ x # drop i xs"

text \<open>
  \<^verbatim>\<open>np.moveaxis(a, source, destination)\<close>, as numpy defines it:
  \<^verbatim>\<open>
    source = normalize_axis_tuple(source, a.ndim)
    destination = normalize_axis_tuple(destination, a.ndim)
    if len(source) != len(destination): raise ValueError
    order = [n for n in range(a.ndim) if n not in source]
    for dest, src in sorted(zip(destination, source)):
        order.insert(dest, src)
    return a.transpose(order)
  \<close>
\<close>

definition moveaxis :: "'a ndarray \<Rightarrow> int list \<Rightarrow> int list \<Rightarrow> error + 'a ndarray" where
  "moveaxis a source destination =
     (case normalize_axis_tuple source (ndim a) of
        Inl e \<Rightarrow> Inl e
      | Inr src \<Rightarrow>
          (case normalize_axis_tuple destination (ndim a) of
             Inl e \<Rightarrow> Inl e
           | Inr dst \<Rightarrow>
               if length src \<noteq> length dst then Inl ValueError
               else Inr (np_transpose a
                      (fold (\<lambda>(dest, s) order. list_insert dest s order) (sort (zip dst src))
                         (filter (\<lambda>n. n \<notin> set src) [0..<ndim a])))))"

subsection \<open>New axes and broadcasting\<close>

text \<open>
  The array with \<open>r\<close> axes of length one appended, and the array with \<open>p\<close> axes of
  length one in front; the elements stay as they are.
\<close>

definition trailing_axes :: "'a ndarray \<Rightarrow> nat \<Rightarrow> 'a ndarray" where
  "trailing_axes a r = NDArray (nd_shape a @ replicate r 1) (nd_data a)"

definition leading_axes :: "nat \<Rightarrow> 'a ndarray \<Rightarrow> 'a ndarray" where
  "leading_axes p a = NDArray (replicate p 1 @ nd_shape a) (nd_data a)"

text \<open>
  The largest number of axes an array can have in numpy 1.x, which the notebook is
  written for.
\<close>

definition NPY_MAXDIMS :: nat where
  "NPY_MAXDIMS = 32"

text \<open>
  \<^verbatim>\<open>a[(slice(None),)*a.ndim + (None,)*r]\<close> appends \<open>r\<close> new axes, and
  \<^verbatim>\<open>a[(None,)*p + (slice(None),)]\<close> puts \<open>p\<close> new axes in front. numpy raises
  \<open>IndexError\<close> when the result of the indexing would have more than \<open>NPY_MAXDIMS\<close>
  axes.
\<close>

definition expand_trailing :: "'a ndarray \<Rightarrow> nat \<Rightarrow> error + 'a ndarray" where
  "expand_trailing a r =
     (if NPY_MAXDIMS < length (nd_shape a) + r then Inl IndexError
      else Inr (trailing_axes a r))"

definition expand_leading :: "nat \<Rightarrow> 'a ndarray \<Rightarrow> error + 'a ndarray" where
  "expand_leading p a =
     (if NPY_MAXDIMS < p + length (nd_shape a) then Inl IndexError
      else Inr (leading_axes p a))"

fun broadcast_dims :: "nat list \<Rightarrow> nat list \<Rightarrow> error + nat list" where
  "broadcast_dims (m # ms) (n # ns) =
     (if m = n \<or> n = 1 then
        (case broadcast_dims ms ns of Inl e \<Rightarrow> Inl e | Inr sh \<Rightarrow> Inr (m # sh))
      else if m = 1 then
        (case broadcast_dims ms ns of Inl e \<Rightarrow> Inl e | Inr sh \<Rightarrow> Inr (n # sh))
      else Inl ValueError)"
| "broadcast_dims _ _ = Inr []"

text \<open>Shapes are aligned at their last axis; the shorter one is filled with ones in front.\<close>

definition broadcast_shapes :: "nat list \<Rightarrow> nat list \<Rightarrow> error + nat list" where
  "broadcast_shapes s1 s2 =
     (let r = max (length s1) (length s2)
      in broadcast_dims (replicate (r - length s1) 1 @ s1) (replicate (r - length s2) 1 @ s2))"

text \<open>The index into an operand of shape \<open>sh\<close> that the result index \<open>j\<close> reads.\<close>

definition broadcast_index :: "nat list \<Rightarrow> nat list \<Rightarrow> nat list" where
  "broadcast_index sh j =
     map (\<lambda>(n, i). if n = 1 then 0 else i) (zip sh (drop (length j - length sh) j))"

text \<open>\<^verbatim>\<open>a * b\<close> on arrays.\<close>

definition multiply :: "'a::times ndarray \<Rightarrow> 'a ndarray \<Rightarrow> error + 'a ndarray" where
  "multiply a b =
     (case broadcast_shapes (nd_shape a) (nd_shape b) of
        Inl e \<Rightarrow> Inl e
      | Inr sh \<Rightarrow>
          Inr (tabulate sh (\<lambda>j. item a (broadcast_index (nd_shape a) j)
                              * item b (broadcast_index (nd_shape b) j))))"

subsection \<open>Summing over axes and taking along an axis\<close>

text \<open>
  All the indices of the full shape that agree with \<open>j\<close> on the axes that are kept;
  \<open>rm\<close> marks the axes that are summed over.
\<close>

fun fill_axes :: "nat list \<Rightarrow> bool list \<Rightarrow> nat list \<Rightarrow> nat list list" where
  "fill_axes (n # sh) (True # rm) j =
     concat (map (\<lambda>i. map ((#) i) (fill_axes sh rm j)) [0..<n])"
| "fill_axes (n # sh) (False # rm) (i # j) = map ((#) i) (fill_axes sh rm j)"
| "fill_axes _ _ _ = [Nil]"

text \<open>
  \<^verbatim>\<open>np.sum(a, axes)\<close> for a tuple of axes. The notebook passes the positions given by
  \<^verbatim>\<open>np.where\<close>, which are distinct and inside the array's rank.
\<close>

definition np_sum :: "'a::monoid_add ndarray \<Rightarrow> nat list \<Rightarrow> 'a ndarray" where
  "np_sum a axes =
     (let rm = map (\<lambda>k. k \<in> set axes) [0..<ndim a];
          sh = map snd (filter (\<lambda>(r, n). \<not> r) (zip rm (nd_shape a)))
      in tabulate sh (\<lambda>j. sum_list (map (item a) (fill_axes (nd_shape a) rm j))))"

text \<open>
  \<^verbatim>\<open>np.take(a, value, axis)\<close> for a scalar \<open>value\<close>: a negative value counts from the end,
  a value outside \<open>[-n, n)\<close> raises \<open>IndexError\<close>, and the axis disappears.
\<close>

definition np_take :: "'a ndarray \<Rightarrow> int \<Rightarrow> nat \<Rightarrow> error + 'a ndarray" where
  "np_take a v axis =
     (let n = nd_shape a ! axis
      in if v < - int n \<or> int n \<le> v then Inl IndexError
         else
           (let i = nat (if v < 0 then v + int n else v);
                sh = take axis (nd_shape a) @ drop (Suc axis) (nd_shape a)
            in Inr (tabulate sh (\<lambda>j. item a (take axis j @ i # drop axis j)))))"

section \<open>The factor class\<close>

record ('v, 'a) factor =
  get_variables :: "'v list"
  get_distribution :: "'a ndarray option"
  get_shape :: "nat list option"

text \<open>The constructor \<^verbatim>\<open>factor(variables, distribution)\<close>; \<open>None\<close> is an absent argument.\<close>

definition factor_init :: "'v list option \<Rightarrow> 'a ndarray option \<Rightarrow> error + ('v, 'a) factor" where
  "factor_init variables distribution =
     (case (distribution, variables) of
        (None, Some vs) \<Rightarrow>
          Inr \<lparr>get_variables = vs, get_distribution = None, get_shape = None\<rparr>
      | (_, None) \<Rightarrow> Inl (Exception ''Data is incorrect'')
      | (Some d, Some vs) \<Rightarrow>
          if length vs \<noteq> length (nd_shape d) then Inl (Exception ''Data is incorrect'')
          else Inr \<lparr>get_variables = vs, get_distribution = Some d,
                    get_shape = Some (nd_shape d)\<rparr>)"

definition is_none :: "('v, 'a) factor \<Rightarrow> bool" where
  "is_none x = (if get_distribution x = None then True else False)"

section \<open>Factor product\<close>

definition factor_product ::
  "('v::linorder, 'a::times) factor \<Rightarrow> ('v, 'a) factor \<Rightarrow> error + ('v, 'a) factor" where
  "factor_product x y =
     (if is_none x \<or> is_none y then Inl (Exception ''One of the factors is None'')
      else
        (case (get_distribution x, get_shape x, get_distribution y, get_shape y) of
           (Some dx, Some sx, Some dy, Some sy) \<Rightarrow>
             (let (xy, xy_in_x_ind, xy_in_y_ind) =
                    intersect1d (get_variables x) (get_variables y)
              in if length xy = 0 then Inl (Exception ''Factors do not have common variables'')
                 else if map ((!) sx) xy_in_x_ind \<noteq> map ((!) sy) xy_in_y_ind
                 then Inl (Exception ''Common variables have different order'')
                 else
                   (let x_not_in_y = setdiff1d (get_variables x) (get_variables y);
                        y_not_in_x = setdiff1d (get_variables y) (get_variables x);
                        x_mask = isin (get_variables x) xy True;
                        y_mask = isin (get_variables y) xy True;
                        x_ind0 = replicate (length (get_variables x)) (- 1);
                        y_ind0 = replicate (length (get_variables y)) (- 1);
                        x_ind1 = assign_mask x_ind0 x_mask (arange (count_true x_mask));
                        y_ind1 = assign_mask y_ind0 y_mask
                                   (map (\<lambda>k. k + int (count_true (map Not y_mask)))
                                      (arange (count_true y_mask)));
                        x_ind = assign_index x_ind1 xy_in_x_ind
                                  (map (\<lambda>k. k + int (count_true x_mask)) (arange (length xy)));
                        y_ind = assign_index y_ind1 xy_in_y_ind (arange (length xy))
                    in case moveaxis dx (arange (length x_ind)) x_ind of
                         Inl e \<Rightarrow> Inl e
                       | Inr x_distribution \<Rightarrow>
                           (case moveaxis dy (arange (length y_ind)) y_ind of
                              Inl e \<Rightarrow> Inl e
                            | Inr y_distribution \<Rightarrow>
                                (case expand_trailing x_distribution (length y_not_in_x) of
                                   Inl e \<Rightarrow> Inl e
                                 | Inr x_expanded \<Rightarrow>
                                     (case expand_leading (length x_not_in_y) y_distribution of
                                        Inl e \<Rightarrow> Inl e
                                      | Inr y_expanded \<Rightarrow>
                                          (case multiply x_expanded y_expanded of
                                             Inl e \<Rightarrow> Inl e
                                           | Inr res_distribution \<Rightarrow>
                                               factor_init
                                                 (Some (x_not_in_y @ xy @ y_not_in_x))
                                                 (Some res_distribution)))))))
         | _ \<Rightarrow> Inl TypeError))"

section \<open>Factor marginalization\<close>

definition factor_marginalization ::
  "('v, 'a::monoid_add) factor \<Rightarrow> 'v list \<Rightarrow> error + ('v, 'a) factor" where
  "factor_marginalization x variables =
     (if is_none x then Inl (Exception ''Factor is None'')
      else if \<not> list_all (\<lambda>b. b) (isin variables (get_variables x) False)
      then Inl (Exception ''Factor do not contain given variables'')
      else
        (case get_distribution x of
           Some dx \<Rightarrow>
             (let res_variables = setdiff1d (get_variables x) variables;
                  res_distribution =
                    np_sum dx (np_where (isin (get_variables x) variables False))
              in factor_init (Some res_variables) (Some res_distribution))
         | None \<Rightarrow> Inl TypeError))"

section \<open>Factor reduction\<close>

text \<open>
  \<open>None\<close> is an absent \<open>variable\<close> or \<open>value\<close>. The test
  \<^verbatim>\<open>value >= x.get_shape()[np.where(variable==x.get_variables())[0]]\<close> compares with one
  cardinality for each position that holds the variable; Python takes the truth value
  of the resulting array only when it has one element, and \<^verbatim>\<open>int(...)\<close> of the positions
  likewise needs exactly one.
\<close>

definition factor_reduction ::
  "('v, 'a) factor \<Rightarrow> 'v option \<Rightarrow> int option \<Rightarrow> error + ('v, 'a) factor" where
  "factor_reduction x variable v =
     (if is_none x \<or> variable = None \<or> v = None then Inl (Exception ''Input is None'')
      else
        (case (variable, v, get_distribution x, get_shape x) of
           (Some var, Some val, Some dx, Some sx) \<Rightarrow>
             (let eq_mask = map (\<lambda>w. var = w) (get_variables x)
              in if \<not> list_ex (\<lambda>b. b) eq_mask
                 then Inl (Exception ''Factor do not contain given variable'')
                 else
                   (case np_where eq_mask of
                      [k] \<Rightarrow>
                        if val \<ge> int (sx ! k)
                        then Inl (Exception ''Incorrect value of given variable'')
                        else
                          (let res_variables = setdiff1d (get_variables x) [var]
                           in case np_take dx val k of
                                Inl e \<Rightarrow> Inl e
                              | Inr res_distribution \<Rightarrow>
                                  factor_init (Some res_variables) (Some res_distribution))
                    | _ \<Rightarrow> Inl ValueError))
         | _ \<Rightarrow> Inl TypeError))"

section \<open>Joint distribution\<close>

text \<open>The second loop of \<^verbatim>\<open>joint_distribution\<close>; a failing product ends it.\<close>

fun product_loop ::
  "('v::linorder, 'a::times) factor \<Rightarrow> ('v, 'a) factor list \<Rightarrow> error + ('v, 'a) factor" where
  "product_loop res [] = Inr res"
| "product_loop res (element # ar) =
     (case factor_product res element of
        Inl e \<Rightarrow> Inl e
      | Inr res' \<Rightarrow> product_loop res' ar)"

definition joint_distribution ::
  "('v::linorder, 'a::times) factor list \<Rightarrow> error + ('v, 'a) factor" where
  "joint_distribution ar =
     (if list_ex is_none ar then Inl (Exception ''Factor is None'')
      else
        (case ar of
           [] \<Rightarrow> Inl IndexError
         | res # rest \<Rightarrow> product_loop res rest))"

text \<open>
  The left fold as the specification words it: the result starts as the first factor,
  each later factor is multiplied onto it, and a failure stays a failure.
\<close>

definition left_fold_product ::
  "('v::linorder, 'a::times) factor \<Rightarrow> ('v, 'a) factor list \<Rightarrow> error + ('v, 'a) factor" where
  "left_fold_product f fs =
     foldl (\<lambda>acc g. case acc of Inl e \<Rightarrow> Inl e | Inr r \<Rightarrow> factor_product r g) (Inr f) fs"

section \<open>The invariant of the data model\<close>

text \<open>
  A factor of the data model has no duplicate variables (the notebook relies on it where
  it passes \<^verbatim>\<open>assume_unique=True\<close>), and its tensor, when present, has one axis for each
  variable and the recorded shape. The constructor gives the last two; \<open>nd_wf\<close> says
  that the array holds as many elements as its shape asks for.
\<close>

definition factor_inv :: "('v, 'a) factor \<Rightarrow> bool" where
  "factor_inv x =
     (distinct (get_variables x) \<and>
      (case get_distribution x of
         None \<Rightarrow> get_shape x = None
       | Some d \<Rightarrow> nd_wf d \<and> get_shape x = Some (nd_shape d)
                   \<and> length (get_variables x) = length (nd_shape d)))"

text \<open>The factors of the notebook's first example, and a third one over \<open>c\<close> alone.\<close>

definition phi_1 :: "(string, rat) factor" where
  "phi_1 = \<lparr>get_variables = [''a'', ''b''],
            get_distribution = Some (NDArray [3, 2] [5/10, 8/10, 1/10, 0, 3/10, 9/10]),
            get_shape = Some [3, 2]\<rparr>"

definition phi_2 :: "(string, rat) factor" where
  "phi_2 = \<lparr>get_variables = [''b'', ''c''],
            get_distribution = Some (NDArray [2, 2] [5/10, 7/10, 1/10, 2/10]),
            get_shape = Some [2, 2]\<rparr>"

definition phi_c :: "(string, rat) factor" where
  "phi_c = \<lparr>get_variables = [''c''],
            get_distribution = Some (NDArray [2] [2, 3]),
            get_shape = Some [2]\<rparr>"

definition phi_empty :: "(string, rat) factor" where
  "phi_empty = \<lparr>get_variables = [''a''], get_distribution = None, get_shape = None\<rparr>"

text \<open>The product of the first example, as the notebook prints it.\<close>

definition phi_3 :: "(string, rat) factor" where
  "phi_3 = \<lparr>get_variables = [''a'', ''b'', ''c''],
            get_distribution = Some (NDArray [3, 2, 2]
              [25/100, 35/100, 8/100, 16/100, 5/100, 7/100, 0, 0,
               15/100, 21/100, 9/100, 18/100]),
            get_shape = Some [3, 2, 2]\<rparr>"

text \<open>A factor over \<open>b\<close> with three values, and the product of the example the other way round.\<close>

definition phi_b3 :: "(string, rat) factor" where
  "phi_b3 = \<lparr>get_variables = [''b''],
             get_distribution = Some (NDArray [3] [1, 2, 3]),
             get_shape = Some [3]\<rparr>"

definition phi_3_swapped :: "(string, rat) factor" where
  "phi_3_swapped = \<lparr>get_variables = [''c'', ''b'', ''a''],
            get_distribution = Some (NDArray [2, 2, 3]
              [25/100, 5/100, 15/100, 8/100, 0, 9/100,
               35/100, 7/100, 21/100, 16/100, 0, 18/100]),
            get_shape = Some [2, 2, 3]\<rparr>"

text \<open>Two factors that share two variables, held in different orders.\<close>

definition phi_x :: "(string, int) factor" where
  "phi_x = \<lparr>get_variables = [''c'', ''a'', ''b''],
            get_distribution = Some (NDArray [2, 3, 2] [1, 2, 3, 4, 5, 6, 7, 8, 9, 10, 11, 12]),
            get_shape = Some [2, 3, 2]\<rparr>"

definition phi_y :: "(string, int) factor" where
  "phi_y = \<lparr>get_variables = [''d'', ''b'', ''a''],
            get_distribution = Some (NDArray [2, 2, 3]
              [1, 10, 100, 1000, 10000, 100000, 2, 20, 200, 2000, 20000, 200000]),
            get_shape = Some [2, 2, 3]\<rparr>"

text \<open>
  Two factors over seventeen variables each, every variable with a single value, that
  share the variable \<open>16\<close>: thirty-three variables between them.
\<close>

definition phi_wide_1 :: "(nat, int) factor" where
  "phi_wide_1 = \<lparr>get_variables = [0..<17],
                 get_distribution = Some (NDArray (replicate 17 1) [1]),
                 get_shape = Some (replicate 17 1)\<rparr>"

definition phi_wide_2 :: "(nat, int) factor" where
  "phi_wide_2 = \<lparr>get_variables = [16..<33],
                 get_distribution = Some (NDArray (replicate 17 1) [1]),
                 get_shape = Some (replicate 17 1)\<rparr>"

text \<open>An assignment of a value index to each variable of the example.\<close>

definition sigma_1 :: "string \<Rightarrow> nat" where
  "sigma_1 v = (if v = ''a'' then 2 else if v = ''b'' then 1 else 0)"

section \<open>Indices and entries\<close>

lemma length_all_indices: "length (all_indices sh) = prod_list sh"
proof (induction sh)
  case Nil
  show ?case by simp
next
  case (Cons n sh)
  have "length (concat (map (\<lambda>i. map ((#) i) (all_indices sh)) [0..<n])) = n * prod_list sh"
    using Cons by (induction n) simp_all
  then show ?case by simp
qed

lemma concat_nth_uniform:
  "\<forall>xs \<in> set xss. length xs = m \<Longrightarrow> i < length xss \<Longrightarrow> j < m \<Longrightarrow>
   concat xss ! (i * m + j) = xss ! i ! j"
proof (induction xss arbitrary: i)
  case Nil
  then show ?case by simp
next
  case (Cons xs xss)
  show ?case
  proof (cases i)
    case 0
    with Cons.prems show ?thesis by (simp add: nth_append)
  next
    case (Suc i')
    with Cons.prems have "concat xss ! (i' * m + j) = xss ! i' ! j"
      by (intro Cons.IH) auto
    with Suc Cons.prems show ?thesis by (simp add: nth_append)
  qed
qed

lemma valid_index_Nil [simp]: "valid_index [] idx = (idx = [])" "valid_index sh [] = (sh = [])"
  by (auto simp: valid_index_def)

lemma valid_index_Cons [simp]:
  "valid_index (n # sh) (i # idx) = (i < n \<and> valid_index sh idx)"
  by (simp add: valid_index_def)

lemma valid_index_length: "valid_index sh idx \<Longrightarrow> length idx = length sh"
  by (simp add: valid_index_def list_all2_lengthD)

lemma valid_index_append:
  "length idx1 = length sh1 \<Longrightarrow>
   valid_index (sh1 @ sh2) (idx1 @ idx2) = (valid_index sh1 idx1 \<and> valid_index sh2 idx2)"
  by (auto simp: valid_index_def list_all2_append)

lemma flat_index_less: "valid_index sh idx \<Longrightarrow> flat_index sh idx < prod_list sh"
  unfolding valid_index_def
proof (induction idx sh rule: list_all2_induct)
  case Nil
  show ?case by simp
next
  case (Cons i idx n sh)
  have "i * prod_list sh + flat_index sh idx < Suc i * prod_list sh"
    using Cons by simp
  also have "\<dots> \<le> n * prod_list sh"
    using Cons by (intro mult_le_mono1) simp
  finally show ?case by simp
qed

lemma all_indices_nth: "valid_index sh idx \<Longrightarrow> all_indices sh ! flat_index sh idx = idx"
proof (induction sh arbitrary: idx)
  case Nil
  then show ?case by simp
next
  case (Cons n sh)
  then obtain i idx' where idx: "idx = i # idx'" and i: "i < n" and v: "valid_index sh idx'"
    by (cases idx) auto
  let ?xss = "map (\<lambda>i. map ((#) i) (all_indices sh)) [0..<n]"
  have "concat ?xss ! (i * prod_list sh + flat_index sh idx') = ?xss ! i ! flat_index sh idx'"
    using i flat_index_less [OF v]
    by (intro concat_nth_uniform) (auto simp: length_all_indices)
  also have "\<dots> = i # all_indices sh ! flat_index sh idx'"
    using i flat_index_less [OF v] by (simp add: length_all_indices)
  finally show ?case
    using Cons.IH [OF v] idx by simp
qed

lemma item_tabulate: "valid_index sh idx \<Longrightarrow> item (tabulate sh f) idx = f idx"
  using flat_index_less [of sh idx] all_indices_nth [of sh idx]
  by (simp add: item_def tabulate_def length_all_indices)

lemma nd_shape_tabulate [simp]: "nd_shape (tabulate sh f) = sh"
  by (simp add: tabulate_def)

lemma tabulate_cong:
  "(\<And>idx. valid_index sh idx \<Longrightarrow> f idx = g idx) \<Longrightarrow> tabulate sh f = tabulate sh g"
proof -
  assume a: "\<And>idx. valid_index sh idx \<Longrightarrow> f idx = g idx"
  have "idx \<in> set (all_indices sh) \<Longrightarrow> valid_index sh idx" for idx
  proof (induction sh arbitrary: idx)
    case Nil
    then show ?case by simp
  next
    case (Cons n sh)
    then show ?case by auto
  qed
  with a show ?thesis
    by (simp add: tabulate_def)
qed

section \<open>Positions of values\<close>

lemma index_of_less: "v \<in> set xs \<Longrightarrow> index_of xs v < length xs"
  by (induction xs) auto

lemma nth_index_of: "v \<in> set xs \<Longrightarrow> xs ! index_of xs v = v"
  by (induction xs) auto

lemma index_of_nth: "distinct xs \<Longrightarrow> k < length xs \<Longrightarrow> index_of xs (xs ! k) = k"
proof (induction xs arbitrary: k)
  case Nil
  then show ?case by simp
next
  case (Cons x xs)
  then show ?case by (cases k) auto
qed

lemma index_of_append:
  "index_of (xs @ ys) v = (if v \<in> set xs then index_of xs v else length xs + index_of ys v)"
  by (induction xs) auto

lemma filter_upt_single:
  assumes "k0 < n" and "\<And>k. k < n \<Longrightarrow> P k = (k = k0)"
  shows "filter P [0..<n] = [k0]"
proof -
  have split: "[0..<n] = [0..<k0] @ k0 # [Suc k0..<n]"
    using assms(1) by (metis upt_conv_Cons less_imp_le_nat upt_add_eq_append le_add_diff_inverse zero_le)
  have "filter P [0..<k0] = []" "filter P [Suc k0..<n] = []"
    using assms by (auto simp: filter_empty_conv)
  moreover have "P k0" using assms by simp
  ultimately show ?thesis by (simp add: split)
qed

lemma np_where_eq:
  assumes "distinct vs" "var \<in> set vs"
  shows "np_where (map (\<lambda>w. var = w) vs) = [index_of vs var]"
  unfolding np_where_def length_map
proof (rule filter_upt_single)
  show "index_of vs var < length vs" using assms by (simp add: index_of_less)
next
  fix k assume "k < length vs"
  then show "(map ((=) var) vs ! k) = (k = index_of vs var)"
    using assms by (auto simp: index_of_nth nth_index_of)
qed

lemma length_filter_neq:
  "distinct vs \<Longrightarrow> var \<in> set vs \<Longrightarrow> Suc (length (filter (\<lambda>w. w \<noteq> var) vs)) = length vs"
proof (induction vs)
  case Nil
  then show ?case by simp
next
  case (Cons a vs)
  have "var \<notin> set vs \<Longrightarrow> filter (\<lambda>w. w \<noteq> var) vs = vs"
    by (rule filter_True) auto
  with Cons show ?case by auto
qed

section \<open>Empty factors are rejected\<close>

text \<open>
  Claim C5. A factor built from variables alone has no tensor, and every operation
  given it raises the notebook's own exception: the product in either argument
  position, marginalization over any variables, reduction on any variable and value,
  and the joint distribution of any sequence that contains it.
\<close>

theorem empty_factor_rejected:
  fixes e :: "('v::linorder, 'a::{times, monoid_add}) factor"
  assumes "factor_init (Some vs) None = Inr e"
  shows "is_none e
    \<and> factor_product e y = Inl (Exception ''One of the factors is None'')
    \<and> factor_product x e = Inl (Exception ''One of the factors is None'')
    \<and> factor_marginalization e variables = Inl (Exception ''Factor is None'')
    \<and> factor_reduction e variable v = Inl (Exception ''Input is None'')
    \<and> (e \<in> set ar \<longrightarrow> joint_distribution ar = Inl (Exception ''Factor is None''))"
proof -
  from assms have e: "is_none e"
    by (auto simp: factor_init_def is_none_def)
  have "e \<in> set ar \<Longrightarrow> list_ex is_none ar"
    using e by (auto simp: list_ex_iff)
  with e show ?thesis
    by (simp add: factor_product_def factor_marginalization_def factor_reduction_def
        joint_distribution_def)
qed

theorem empty_factor_rejected_witness:
  "factor_init (Some [''a'']) None = Inr phi_empty
   \<and> is_none phi_empty
   \<and> factor_product phi_empty phi_1 = Inl (Exception ''One of the factors is None'')
   \<and> factor_product phi_1 phi_empty = Inl (Exception ''One of the factors is None'')
   \<and> factor_marginalization phi_empty [''a''] = Inl (Exception ''Factor is None'')
   \<and> factor_reduction phi_empty (Some ''a'') (Some 0) = Inl (Exception ''Input is None'')
   \<and> phi_empty \<in> set [phi_1, phi_empty]
   \<and> joint_distribution [phi_1, phi_empty] = Inl (Exception ''Factor is None'')"
proof -
  have h: "factor_init (Some [''a'']) None = Inr phi_empty"
    by (simp add: factor_init_def phi_empty_def)
  show ?thesis
    using h empty_factor_rejected [OF h, of phi_1 phi_1 "[''a'']" "Some ''a''" "Some 0"
        "[phi_1, phi_empty]"]
    by simp
qed

section \<open>The joint distribution\<close>

lemma foldl_product_Inl:
  "foldl (\<lambda>acc g. case acc of Inl e \<Rightarrow> Inl e | Inr r \<Rightarrow> factor_product r g) (Inl e) fs = Inl e"
  by (induction fs) simp_all

lemma product_loop_foldl: "product_loop res ar = left_fold_product res ar"
proof (induction ar arbitrary: res)
  case Nil
  show ?case by (simp add: left_fold_product_def)
next
  case (Cons element ar)
  show ?case
  proof (cases "factor_product res element")
    case (Inl e)
    then show ?thesis by (simp add: left_fold_product_def foldl_product_Inl)
  next
    case (Inr r)
    with Cons.IH [of r] show ?thesis by (simp add: left_fold_product_def)
  qed
qed

text \<open>
  Claim C7. On a sequence of factors that all have a tensor, the joint distribution is
  the left fold of the product over the sequence: the first factor alone for a sequence
  of one, and for a longer sequence the joint distribution of all but the last factor
  multiplied by the last one, a failure of an earlier product being the outcome.
\<close>

theorem joint_distribution_left_fold:
  assumes "\<not> list_ex is_none (f # fs)"
  shows "joint_distribution (f # fs) = left_fold_product f fs
    \<and> joint_distribution [f] = Inr f
    \<and> joint_distribution (f # fs @ [g]) =
        (if is_none g then Inl (Exception ''Factor is None'')
         else case joint_distribution (f # fs) of
                Inl e \<Rightarrow> Inl e
              | Inr r \<Rightarrow> factor_product r g)"
proof -
  have 1: "joint_distribution (f # fs) = left_fold_product f fs"
    using assms by (simp add: joint_distribution_def product_loop_foldl)
  have 2: "joint_distribution [f] = Inr f"
    using assms by (simp add: joint_distribution_def)
  have 3: "joint_distribution (f # fs @ [g]) =
        (if is_none g then Inl (Exception ''Factor is None'')
         else case joint_distribution (f # fs) of
                Inl e \<Rightarrow> Inl e
              | Inr r \<Rightarrow> factor_product r g)"
    using assms
    by (simp add: joint_distribution_def product_loop_foldl left_fold_product_def)
  from 1 2 3 show ?thesis by blast
qed

theorem joint_distribution_left_fold_witness:
  "\<not> list_ex is_none [phi_1, phi_2]
   \<and> joint_distribution [phi_1, phi_2] = factor_product phi_1 phi_2
   \<and> joint_distribution [phi_1] = Inr phi_1
   \<and> joint_distribution [phi_1, phi_2, phi_c] =
       (case factor_product phi_1 phi_2 of Inl e \<Rightarrow> Inl e | Inr r \<Rightarrow> factor_product r phi_c)"
proof -
  have h: "\<not> list_ex is_none [phi_1, phi_2]"
    by (simp add: is_none_def phi_1_def phi_2_def)
  have c: "\<not> is_none phi_c"
    by (simp add: is_none_def phi_c_def)
  have "joint_distribution [phi_1, phi_2] = factor_product phi_1 phi_2"
    using joint_distribution_left_fold [OF h, of phi_c]
    by (simp add: left_fold_product_def)
  then show ?thesis
    using h c joint_distribution_left_fold [OF h, of phi_c] by simp
qed

text \<open>
  Claim C8. The joint distribution of no factors at all fails, but not with the
  notebook's own exception: the first loop has nothing to reject and \<^verbatim>\<open>ar[0]\<close> raises
  Python's \<open>IndexError\<close>.
\<close>

theorem joint_distribution_empty_sequence:
  "joint_distribution ([] :: (string, rat) factor list) = Inl IndexError"
  by (simp add: joint_distribution_def)

theorem joint_distribution_empty_not_InvalidArgument:
  "\<not> is_InvalidArgument (joint_distribution ([] :: (string, rat) factor list))"
  by (simp add: joint_distribution_def)

section \<open>Factor reduction is a slice\<close>

lemma factor_reduction_closed:
  assumes inv: "factor_inv x" and dx: "get_distribution x = Some dx"
    and var: "var \<in> set (get_variables x)"
    and lo: "- int (nd_shape dx ! index_of (get_variables x) var) \<le> i"
    and hi: "i < int (nd_shape dx ! index_of (get_variables x) var)"
  shows "factor_reduction x (Some var) (Some i) =
    Inr \<lparr>get_variables = filter (\<lambda>w. w \<noteq> var) (get_variables x),
         get_distribution = Some (tabulate
           (take (index_of (get_variables x) var) (nd_shape dx)
              @ drop (Suc (index_of (get_variables x) var)) (nd_shape dx))
           (\<lambda>j. item dx (take (index_of (get_variables x) var) j
                  @ nat (if i < 0 then i + int (nd_shape dx ! index_of (get_variables x) var) else i)
                  # drop (index_of (get_variables x) var) j))),
         get_shape = Some (take (index_of (get_variables x) var) (nd_shape dx)
              @ drop (Suc (index_of (get_variables x) var)) (nd_shape dx))\<rparr>"
proof -
  let ?vs = "get_variables x"
  let ?k = "index_of ?vs var"
  from inv dx have d: "distinct ?vs" and sh: "get_shape x = Some (nd_shape dx)"
    and len: "length ?vs = length (nd_shape dx)"
    by (simp_all add: factor_inv_def)
  have k: "?k < length (nd_shape dx)"
    using index_of_less [OF var] len by simp
  have w: "np_where (map (\<lambda>w. var = w) ?vs) = [?k]"
    using d var by (rule np_where_eq)
  have ex: "list_ex (\<lambda>b. b) (map (\<lambda>w. var = w) ?vs)"
    using var by (auto simp: list_ex_iff)
  have n: "\<not> is_none x"
    using dx by (simp add: is_none_def)
  have l: "length (filter (\<lambda>w. w \<noteq> var) ?vs) = length (nd_shape dx) - 1"
    using length_filter_neq [OF d var] len by simp
  have l2: "min (length (nd_shape dx)) ?k + (length (nd_shape dx) - Suc ?k) = length (nd_shape dx) - 1"
    using k by simp
  show ?thesis
    using n ex w lo hi l l2
    by (simp add: factor_reduction_def dx sh Let_def np_take_def setdiff1d_def factor_init_def)
qed

text \<open>
  Claim C4. Reducing a factor of the data model on one of its variables, at a value
  index from zero up to the variable's cardinality, returns a factor whose variables
  are the others in their order and whose tensor is the slice of the tensor at that
  index along the variable's axis: each entry of the result is the entry of the
  original with the index put back at the axis, and nothing is added up.
\<close>

theorem factor_reduction_slice:
  assumes "factor_inv x" and "get_distribution x = Some dx"
    and "v \<in> set (get_variables x)"
    and "0 \<le> i" and "i < int (nd_shape dx ! index_of (get_variables x) v)"
  shows "\<exists>r dr. factor_reduction x (Some v) (Some i) = Inr r
    \<and> get_variables r = filter (\<lambda>w. w \<noteq> v) (get_variables x)
    \<and> get_distribution r = Some dr
    \<and> nd_shape dr = take (index_of (get_variables x) v) (nd_shape dx)
                      @ drop (Suc (index_of (get_variables x) v)) (nd_shape dx)
    \<and> (\<forall>j. valid_index (nd_shape dr) j \<longrightarrow>
           item dr j = item dx (take (index_of (get_variables x) v) j @ nat i
                                  # drop (index_of (get_variables x) v) j))"
proof -
  have lo: "- int (nd_shape dx ! index_of (get_variables x) v) \<le> i"
    using assms(4) by simp
  show ?thesis
    using assms(4)
    by (simp add: factor_reduction_closed [OF assms(1-3) lo assms(5)] item_tabulate)
qed

theorem factor_reduction_slice_witness:
  "factor_inv phi_3
   \<and> get_distribution phi_3 = Some (NDArray [3, 2, 2]
        [25/100, 35/100, 8/100, 16/100, 5/100, 7/100, 0, 0, 15/100, 21/100, 9/100, 18/100])
   \<and> ''c'' \<in> set (get_variables phi_3)
   \<and> (\<exists>r dr. factor_reduction phi_3 (Some ''c'') (Some 0) = Inr r
        \<and> get_variables r = [''a'', ''b'']
        \<and> get_distribution r = Some dr
        \<and> nd_shape dr = [3, 2]
        \<and> (\<forall>j. valid_index (nd_shape dr) j \<longrightarrow>
              item dr j = item (NDArray [3, 2, 2]
                [25/100, 35/100, 8/100, 16/100, 5/100, 7/100, 0, 0, 15/100, 21/100, 9/100, 18/100])
                (take 2 j @ 0 # drop 2 j)))
   \<and> factor_reduction phi_3 (Some ''c'') (Some 0) =
       Inr \<lparr>get_variables = [''a'', ''b''],
            get_distribution = Some (NDArray [3, 2] [25/100, 8/100, 5/100, 0, 15/100, 9/100]),
            get_shape = Some [3, 2]\<rparr>"
proof -
  let ?d = "NDArray [3, 2, 2]
        [25/100, 35/100, 8/100, 16/100, 5/100, 7/100, 0, 0, 15/100, 21/100, 9/100, 18/100 :: rat]"
  have h1: "factor_inv phi_3"
    by (simp add: factor_inv_def phi_3_def nd_wf_def)
  have h2: "get_distribution phi_3 = Some ?d"
    by (simp add: phi_3_def)
  have h3: "''c'' \<in> set (get_variables phi_3)"
    by (simp add: phi_3_def)
  have k: "index_of (get_variables phi_3) ''c'' = 2"
    by (simp add: phi_3_def)
  have h4: "(0::int) \<le> 0"
    by simp
  have h5: "0 < int (nd_shape ?d ! index_of (get_variables phi_3) ''c'')"
    by (simp add: k)
  have e: "factor_reduction phi_3 (Some ''c'') (Some 0) =
       Inr \<lparr>get_variables = [''a'', ''b''],
            get_distribution = Some (NDArray [3, 2] [25/100, 8/100, 5/100, 0, 15/100, 9/100]),
            get_shape = Some [3, 2]\<rparr>"
    by code_simp
  have f: "filter (\<lambda>w. w \<noteq> ''c'') (get_variables phi_3) = [''a'', ''b'']"
    by (simp add: phi_3_def)
  show ?thesis
    using h1 h2 h3 e factor_reduction_slice [OF h1 h2 h3 h4 h5]
    by (simp add: k f)
qed

text \<open>
  Claim C10. On a factor of the data model, a negative value index, not below minus
  the cardinality, passes the range test (which only rejects values at or above the
  cardinality) and the reduction succeeds: the result is the slice counted from the
  end, at the cardinality plus the index.
\<close>

theorem factor_reduction_negative_index:
  assumes "factor_inv x" and "get_distribution x = Some dx"
    and "v \<in> set (get_variables x)"
    and "- int (nd_shape dx ! index_of (get_variables x) v) \<le> i" and "i < 0"
  shows "\<exists>r dr. factor_reduction x (Some v) (Some i) = Inr r
    \<and> get_variables r = filter (\<lambda>w. w \<noteq> v) (get_variables x)
    \<and> get_distribution r = Some dr
    \<and> nd_shape dr = take (index_of (get_variables x) v) (nd_shape dx)
                      @ drop (Suc (index_of (get_variables x) v)) (nd_shape dx)
    \<and> (\<forall>j. valid_index (nd_shape dr) j \<longrightarrow>
           item dr j = item dx (take (index_of (get_variables x) v) j
                  @ nat (int (nd_shape dx ! index_of (get_variables x) v) + i)
                  # drop (index_of (get_variables x) v) j))"
proof -
  have hi: "i < int (nd_shape dx ! index_of (get_variables x) v)"
    using assms(5) by simp
  show ?thesis
    using assms(5)
    by (simp add: factor_reduction_closed [OF assms(1-4) hi] item_tabulate add.commute)
qed

theorem factor_reduction_negative_index_witness:
  "factor_inv phi_3
   \<and> get_distribution phi_3 = Some (NDArray [3, 2, 2]
        [25/100, 35/100, 8/100, 16/100, 5/100, 7/100, 0, 0, 15/100, 21/100, 9/100, 18/100])
   \<and> ''a'' \<in> set (get_variables phi_3)
   \<and> (\<exists>r dr. factor_reduction phi_3 (Some ''a'') (Some (- 3)) = Inr r
        \<and> get_variables r = [''b'', ''c'']
        \<and> get_distribution r = Some dr
        \<and> nd_shape dr = [2, 2]
        \<and> (\<forall>j. valid_index (nd_shape dr) j \<longrightarrow>
              item dr j = item (NDArray [3, 2, 2]
                [25/100, 35/100, 8/100, 16/100, 5/100, 7/100, 0, 0, 15/100, 21/100, 9/100, 18/100])
                (0 # j)))
   \<and> factor_reduction phi_3 (Some ''a'') (Some (- 3)) =
       Inr \<lparr>get_variables = [''b'', ''c''],
            get_distribution = Some (NDArray [2, 2] [25/100, 35/100, 8/100, 16/100]),
            get_shape = Some [2, 2]\<rparr>"
proof -
  let ?d = "NDArray [3, 2, 2]
        [25/100, 35/100, 8/100, 16/100, 5/100, 7/100, 0, 0, 15/100, 21/100, 9/100, 18/100 :: rat]"
  have h1: "factor_inv phi_3"
    by (simp add: factor_inv_def phi_3_def nd_wf_def)
  have h2: "get_distribution phi_3 = Some ?d"
    by (simp add: phi_3_def)
  have h3: "''a'' \<in> set (get_variables phi_3)"
    by (simp add: phi_3_def)
  have k: "index_of (get_variables phi_3) ''a'' = 0"
    by (simp add: phi_3_def)
  have h4: "- int (nd_shape ?d ! index_of (get_variables phi_3) ''a'') \<le> - 3"
    by (simp add: k)
  have h5: "(- 3 :: int) < 0"
    by simp
  have e: "factor_reduction phi_3 (Some ''a'') (Some (- 3)) =
       Inr \<lparr>get_variables = [''b'', ''c''],
            get_distribution = Some (NDArray [2, 2] [25/100, 35/100, 8/100, 16/100]),
            get_shape = Some [2, 2]\<rparr>"
    by code_simp
  have f: "filter (\<lambda>w. w \<noteq> ''a'') (get_variables phi_3) = [''b'', ''c'']"
    by (simp add: phi_3_def)
  show ?thesis
    using h1 h2 h3 e factor_reduction_negative_index [OF h1 h2 h3 h4 h5]
    by (simp add: k f)
qed

section \<open>Factor marginalization sums over the removed axes\<close>

lemma np_where_mask: "map (\<lambda>k. k \<in> set (np_where bs)) [0..<length bs] = bs"
  by (rule nth_equalityI) (auto simp: np_where_def)

lemma kept_zip_map:
  "map snd (filter (\<lambda>(r, n). \<not> r) (zip (map P vs) sh)) =
   map snd (filter (\<lambda>(w, n). \<not> P w) (zip vs sh))"
  by (simp add: zip_map1 filter_map o_def split_def)

lemma length_kept:
  "length vs = length sh \<Longrightarrow>
   length (filter (\<lambda>(w, n). \<not> P w) (zip vs sh)) = length (filter (\<lambda>w. \<not> P w) vs)"
  by (induction vs sh rule: list_induct2) simp_all

lemma set_prefixed:
  "set (concat (map (\<lambda>i. map ((#) i) L) [0..<n])) = {i # idx | i idx. i < n \<and> idx \<in> set L}"
  by auto

lemma distinct_prefixed:
  "distinct L \<Longrightarrow> distinct (concat (map (\<lambda>i. map ((#) i) L) [0..<n]))"
  by (induction n) (auto simp: distinct_map inj_on_def)

lemma fill_axes_set:
  "length rm = length sh \<Longrightarrow>
   valid_index (map snd (filter (\<lambda>(r, n). \<not> r) (zip rm sh))) j \<Longrightarrow>
   distinct (fill_axes sh rm j) \<and>
   set (fill_axes sh rm j) =
     {idx. valid_index sh idx \<and> map snd (filter (\<lambda>(r, i). \<not> r) (zip rm idx)) = j}"
proof (induction rm sh arbitrary: j rule: list_induct2)
  case Nil
  then show ?case by auto
next
  case (Cons r rm n sh)
  show ?case
  proof (cases r)
    case True
    with Cons.prems have v: "valid_index (map snd (filter (\<lambda>(r, n). \<not> r) (zip rm sh))) j"
      by simp
    note ih = Cons.IH [OF v]
    have "set (fill_axes (n # sh) (r # rm) j) =
        {i # idx | i idx. i < n \<and> idx \<in> set (fill_axes sh rm j)}"
      using True by (simp only: fill_axes.simps set_prefixed)
    also have "\<dots> = {idx. valid_index (n # sh) idx
        \<and> map snd (filter (\<lambda>(r, i). \<not> r) (zip (r # rm) idx)) = j}"
    proof (rule set_eqI)
      fix idx
      show "idx \<in> {i # idx | i idx. i < n \<and> idx \<in> set (fill_axes sh rm j)} \<longleftrightarrow>
            idx \<in> {idx. valid_index (n # sh) idx
               \<and> map snd (filter (\<lambda>(r, i). \<not> r) (zip (r # rm) idx)) = j}"
        using ih True by (cases idx) auto
    qed
    finally show ?thesis
      using ih True by (simp add: distinct_prefixed)
  next
    case False
    with Cons.prems obtain i j' where j: "j = i # j'" and i: "i < n"
      and v: "valid_index (map snd (filter (\<lambda>(r, n). \<not> r) (zip rm sh))) j'"
      by (cases j) auto
    note ih = Cons.IH [OF v]
    have "set (fill_axes (n # sh) (r # rm) j) = (#) i ` set (fill_axes sh rm j')"
      using False j by simp
    also have "\<dots> = {idx. valid_index (n # sh) idx
        \<and> map snd (filter (\<lambda>(r, i). \<not> r) (zip (r # rm) idx)) = j}"
    proof (rule set_eqI)
      fix idx
      show "idx \<in> (#) i ` set (fill_axes sh rm j') \<longleftrightarrow>
            idx \<in> {idx. valid_index (n # sh) idx
               \<and> map snd (filter (\<lambda>(r, i). \<not> r) (zip (r # rm) idx)) = j}"
        using ih False i j by (cases idx) auto
    qed
    finally show ?thesis
      using ih False j by (simp add: distinct_map)
  qed
qed

lemma factor_marginalization_closed:
  fixes x :: "('v, 'a::comm_monoid_add) factor"
  assumes inv: "factor_inv x" and dx: "get_distribution x = Some dx"
    and sub: "set variables \<subseteq> set (get_variables x)"
  shows "factor_marginalization x variables =
    Inr \<lparr>get_variables = filter (\<lambda>w. w \<notin> set variables) (get_variables x),
         get_distribution = Some (tabulate
           (map snd (filter (\<lambda>(w, n). w \<notin> set variables) (zip (get_variables x) (nd_shape dx))))
           (\<lambda>j. sum_list (map (item dx)
                  (fill_axes (nd_shape dx) (map (\<lambda>w. w \<in> set variables) (get_variables x)) j)))),
         get_shape = Some
           (map snd (filter (\<lambda>(w, n). w \<notin> set variables) (zip (get_variables x) (nd_shape dx))))\<rparr>"
proof -
  let ?vs = "get_variables x"
  from inv dx have len: "length ?vs = length (nd_shape dx)"
    by (simp add: factor_inv_def)
  have n: "\<not> is_none x"
    using dx by (simp add: is_none_def)
  have all: "list_all (\<lambda>b. b) (isin variables ?vs False)"
    using sub by (auto simp: isin_def list_all_iff)
  have m: "map (\<lambda>k. k \<in> set (np_where (isin ?vs variables False))) [0..<ndim dx]
      = map (\<lambda>w. w \<in> set variables) ?vs"
    using np_where_mask [of "isin ?vs variables False"] len
    by (simp add: isin_def ndim_def)
  have k: "map snd (filter (\<lambda>(r, n). \<not> r) (zip (map (\<lambda>w. w \<in> set variables) ?vs) (nd_shape dx)))
      = map snd (filter (\<lambda>(w, n). w \<notin> set variables) (zip ?vs (nd_shape dx)))"
    by (rule kept_zip_map)
  have l: "length (filter (\<lambda>w. w \<notin> set variables) ?vs)
      = length (filter (\<lambda>(w, n). w \<notin> set variables) (zip ?vs (nd_shape dx)))"
    using length_kept [OF len, of "\<lambda>w. w \<in> set variables"] by simp
  show ?thesis
    using n all l
    by (simp add: factor_marginalization_def dx np_sum_def m k Let_def setdiff1d_def
        factor_init_def)
qed

text \<open>
  Claim C3. Marginalizing a factor of the data model over variables it contains
  returns a factor whose variables are the remaining ones in their original order,
  each still labelling its own axis: the shape keeps the cardinalities of the
  remaining variables, and each entry of the result is the sum of the entries of the
  original over all indices that agree with it on the remaining axes.
\<close>

theorem factor_marginalization_sums:
  fixes x :: "('v, 'a::comm_monoid_add) factor"
  assumes "factor_inv x" and "get_distribution x = Some dx"
    and "set variables \<subseteq> set (get_variables x)"
  shows "\<exists>r dr. factor_marginalization x variables = Inr r
    \<and> get_variables r = filter (\<lambda>w. w \<notin> set variables) (get_variables x)
    \<and> get_distribution r = Some dr
    \<and> nd_shape dr =
        map snd (filter (\<lambda>(w, n). w \<notin> set variables) (zip (get_variables x) (nd_shape dx)))
    \<and> (\<forall>j. valid_index (nd_shape dr) j \<longrightarrow>
          item dr j =
            (\<Sum>idx \<in> {idx. valid_index (nd_shape dx) idx
                  \<and> map snd (filter (\<lambda>(w, i). w \<notin> set variables) (zip (get_variables x) idx)) = j}.
               item dx idx))"
proof -
  let ?vs = "get_variables x"
  let ?rm = "map (\<lambda>w. w \<in> set variables) ?vs"
  let ?sh = "map snd (filter (\<lambda>(w, n). w \<notin> set variables) (zip ?vs (nd_shape dx)))"
  from assms(1,2) have len: "length ?rm = length (nd_shape dx)"
    by (simp add: factor_inv_def)
  have "sum_list (map (item dx) (fill_axes (nd_shape dx) ?rm j)) =
      (\<Sum>idx \<in> {idx. valid_index (nd_shape dx) idx
            \<and> map snd (filter (\<lambda>(w, i). w \<notin> set variables) (zip ?vs idx)) = j}.
         item dx idx)"
    if v: "valid_index ?sh j" for j
  proof -
    have v': "valid_index (map snd (filter (\<lambda>(r, n). \<not> r) (zip ?rm (nd_shape dx)))) j"
      using v by (simp only: kept_zip_map)
    have "sum_list (map (item dx) (fill_axes (nd_shape dx) ?rm j)) =
        sum (item dx) (set (fill_axes (nd_shape dx) ?rm j))"
      using fill_axes_set [OF len v'] by (simp add: sum_list_distinct_conv_sum_set)
    also have "set (fill_axes (nd_shape dx) ?rm j) =
        {idx. valid_index (nd_shape dx) idx
            \<and> map snd (filter (\<lambda>(w, i). w \<notin> set variables) (zip ?vs idx)) = j}"
      using fill_axes_set [OF len v'] by (simp only: kept_zip_map)
    finally show ?thesis .
  qed
  then show ?thesis
    by (simp add: factor_marginalization_closed [OF assms] item_tabulate)
qed

theorem factor_marginalization_sums_witness:
  "factor_inv phi_3
   \<and> get_distribution phi_3 = Some (NDArray [3, 2, 2]
        [25/100, 35/100, 8/100, 16/100, 5/100, 7/100, 0, 0, 15/100, 21/100, 9/100, 18/100])
   \<and> set [''b''] \<subseteq> set (get_variables phi_3)
   \<and> (\<exists>r dr. factor_marginalization phi_3 [''b''] = Inr r
        \<and> get_variables r = [''a'', ''c'']
        \<and> get_distribution r = Some dr
        \<and> nd_shape dr = [3, 2]
        \<and> (\<forall>j. valid_index (nd_shape dr) j \<longrightarrow>
              item dr j =
                (\<Sum>idx \<in> {idx. valid_index [3, 2, 2] idx
                      \<and> map snd (filter (\<lambda>(w, i). w \<notin> set [''b''])
                                   (zip [''a'', ''b'', ''c''] idx)) = j}.
                   item (NDArray [3, 2, 2]
                     [25/100, 35/100, 8/100, 16/100, 5/100, 7/100, 0, 0,
                      15/100, 21/100, 9/100, 18/100]) idx)))
   \<and> factor_marginalization phi_3 [''b''] =
       Inr \<lparr>get_variables = [''a'', ''c''],
            get_distribution =
              Some (NDArray [3, 2] [33/100, 51/100, 5/100, 7/100, 24/100, 39/100]),
            get_shape = Some [3, 2]\<rparr>"
proof -
  let ?d = "NDArray [3, 2, 2]
        [25/100, 35/100, 8/100, 16/100, 5/100, 7/100, 0, 0, 15/100, 21/100, 9/100, 18/100 :: rat]"
  have h1: "factor_inv phi_3"
    by (simp add: factor_inv_def phi_3_def nd_wf_def)
  have h2: "get_distribution phi_3 = Some ?d"
    by (simp add: phi_3_def)
  have h3: "set [''b''] \<subseteq> set (get_variables phi_3)"
    by (simp add: phi_3_def)
  have v: "get_variables phi_3 = [''a'', ''b'', ''c'']"
    by (simp add: phi_3_def)
  have e: "factor_marginalization phi_3 [''b''] =
       Inr \<lparr>get_variables = [''a'', ''c''],
            get_distribution =
              Some (NDArray [3, 2] [33/100, 51/100, 5/100, 7/100, 24/100, 39/100]),
            get_shape = Some [3, 2]\<rparr>"
    by code_simp
  show ?thesis
    using h1 h2 h3 e factor_marginalization_sums [OF h1 h2 h3]
    by (simp add: v)
qed

section \<open>The destination axes computed by the product\<close>

lemma length_assign_mask [simp]: "length (assign_mask a m vs) = length a"
  by (induction a m vs rule: assign_mask.induct) simp_all

lemma map_upt_Suc_shift: "map f [0..<Suc n] = f 0 # map (\<lambda>k. f (Suc k)) [0..<n]"
  by (simp add: map_upt_Suc del: upt_Suc)

lemma assign_mask_nth:
  "length a = length xs \<Longrightarrow> k < length xs \<Longrightarrow>
   assign_mask a (map P xs) (map f [0..<length (filter P xs)]) ! k =
     (if P (xs ! k) then f (length (filter P (take k xs))) else a ! k)"
proof (induction xs arbitrary: a f k)
  case Nil
  then show ?case by simp
next
  case (Cons x xs)
  then obtain a0 a' where a: "a = a0 # a'" and la: "length a' = length xs"
    by (cases a) auto
  show ?case
  proof (cases "P x")
    case True
    have vals: "map f [0..<length (filter P (x # xs))] =
        f 0 # map (\<lambda>k. f (Suc k)) [0..<length (filter P xs)]"
      using True by (simp add: map_upt_Suc_shift del: upt_Suc)
    show ?thesis
    proof (cases k)
      case 0
      with True a vals show ?thesis by simp
    next
      case (Suc k')
      with Cons.prems have "k' < length xs" by simp
      from Cons.IH [OF la this, of "\<lambda>k. f (Suc k)"] True a vals Suc
      show ?thesis by simp
    qed
  next
    case False
    show ?thesis
    proof (cases k)
      case 0
      with False a show ?thesis by simp
    next
      case (Suc k')
      with Cons.prems have "k' < length xs" by simp
      from Cons.IH [OF la this, of f] False a Suc
      show ?thesis by simp
    qed
  qed
qed

lemma length_assign_index [simp]: "length (assign_index a idx vals) = length a"
proof -
  have "length (fold (\<lambda>(i, v) a. a[i := v]) ps a) = length a" for ps :: "(nat \<times> 'a) list"
    by (induction ps arbitrary: a) (auto simp: split_def)
  then show ?thesis by (simp add: assign_index_def)
qed

lemma assign_index_nth:
  "length idx = length vals \<Longrightarrow> distinct idx \<Longrightarrow> \<forall>i \<in> set idx. i < length a \<Longrightarrow>
   assign_index a idx vals ! k = (if k \<in> set idx then vals ! index_of idx k else a ! k)"
proof (induction idx vals arbitrary: a rule: list_induct2)
  case Nil
  show ?case by (simp add: assign_index_def)
next
  case (Cons i idx v vals)
  have step: "assign_index a (i # idx) (v # vals) = assign_index (a[i := v]) idx vals"
    by (simp add: assign_index_def)
  from Cons.prems have d: "distinct idx" and i: "i \<notin> set idx" "i < length a"
    and b: "\<forall>j \<in> set idx. j < length (a[i := v])"
    by simp_all
  show ?case
    using Cons.IH [OF d b] i by (auto simp: step)
qed

lemma index_of_map_inj:
  "inj_on f (insert v (set xs)) \<Longrightarrow> index_of (map f xs) (f v) = index_of xs v"
  by (induction xs) (auto simp: inj_on_def)

lemma index_of_filter:
  "distinct xs \<Longrightarrow> k < length xs \<Longrightarrow> P (xs ! k) \<Longrightarrow>
   index_of (filter P xs) (xs ! k) = length (filter P (take k xs))"
proof (induction xs arbitrary: k)
  case Nil
  then show ?case by simp
next
  case (Cons x xs)
  show ?case
  proof (cases k)
    case 0
    with Cons.prems show ?thesis by simp
  next
    case (Suc k')
    with Cons.prems have "xs ! k' \<noteq> x" by auto
    with Cons Suc show ?thesis by auto
  qed
qed

lemma count_true_map: "count_true (map P xs) = length (filter P xs)"
  by (simp add: count_true_def filter_map o_def)

lemma dest_axes:
  assumes vs: "distinct vs" and xy: "distinct xy" and sub: "set xy \<subseteq> set vs"
  shows "assign_index
           (assign_mask (replicate (length vs) (- 1)) (map (\<lambda>v. v \<notin> set xy) vs)
              (map (\<lambda>k. int k + int c) [0..<length (filter (\<lambda>v. v \<notin> set xy) vs)]))
           (map (index_of vs) xy)
           (map (\<lambda>k. int k + int d) [0..<length xy])
         = map (\<lambda>v. if v \<in> set xy then int (index_of xy v) + int d
                     else int (index_of (filter (\<lambda>v. v \<notin> set xy) vs) v) + int c) vs"
    (is "?lhs = ?rhs")
proof (rule nth_equalityI)
  show "length ?lhs = length ?rhs" by simp
next
  fix k assume "k < length ?lhs"
  then have k: "k < length vs" by simp
  let ?idx = "map (index_of vs) xy"
  let ?m = "assign_mask (replicate (length vs) (- 1)) (map (\<lambda>v. v \<notin> set xy) vs)
              (map (\<lambda>k. int k + int c) [0..<length (filter (\<lambda>v. v \<notin> set xy) vs)])"
  have inj: "inj_on (index_of vs) (set vs)"
    by (rule inj_on_inverseI [where g = "\<lambda>k. vs ! k"]) (simp add: nth_index_of)
  have didx: "distinct ?idx"
    using xy sub inj by (auto simp: distinct_map intro: inj_on_subset)
  have bidx: "\<forall>i \<in> set ?idx. i < length ?m"
    using sub by (auto simp: index_of_less)
  have mem: "k \<in> set ?idx \<longleftrightarrow> vs ! k \<in> set xy"
  proof
    assume "k \<in> set ?idx"
    then obtain w where w: "w \<in> set xy" "k = index_of vs w" by auto
    with sub have "vs ! k = w" by (auto simp: nth_index_of)
    with w show "vs ! k \<in> set xy" by simp
  next
    assume "vs ! k \<in> set xy"
    moreover have "index_of vs (vs ! k) = k" using vs k by (rule index_of_nth)
    ultimately show "k \<in> set ?idx" by force
  qed
  have nth: "?lhs ! k = (if k \<in> set ?idx then map (\<lambda>k. int k + int d) [0..<length xy] ! index_of ?idx k
      else ?m ! k)"
    by (rule assign_index_nth) (use didx bidx in simp_all)
  show "?lhs ! k = ?rhs ! k"
  proof (cases "vs ! k \<in> set xy")
    case True
    have "insert (vs ! k) (set xy) \<subseteq> set vs"
      using sub True by auto
    with inj have "inj_on (index_of vs) (insert (vs ! k) (set xy))"
      by (rule inj_on_subset)
    then have "index_of ?idx (index_of vs (vs ! k)) = index_of xy (vs ! k)"
      by (rule index_of_map_inj)
    then have "index_of ?idx k = index_of xy (vs ! k)"
      using vs k by (simp add: index_of_nth)
    moreover have "index_of xy (vs ! k) < length xy"
      using True by (rule index_of_less)
    ultimately show ?thesis
      using nth mem True k by simp
  next
    case False
    have "?m ! k = int (length (filter (\<lambda>v. v \<notin> set xy) (take k vs))) + int c"
      using assign_mask_nth [of "replicate (length vs) (- 1)" vs k "\<lambda>v. v \<notin> set xy"
          "\<lambda>k. int k + int c"] k False
      by simp
    moreover have "index_of (filter (\<lambda>v. v \<notin> set xy) vs) (vs ! k) =
        length (filter (\<lambda>v. v \<notin> set xy) (take k vs))"
      using vs k False by (intro index_of_filter) simp_all
    ultimately show ?thesis
      using nth mem False k by simp
  qed
qed

section \<open>Moving the axes by a permutation\<close>

lemma collect_Inr: "collect (map Inr xs) = Inr xs"
  by (induction xs) simp_all

lemma normalize_axis_tuple_nat:
  assumes "distinct xs" and "\<forall>x \<in> set xs. x < n"
  shows "normalize_axis_tuple (map int xs) n = Inr xs"
proof -
  have m: "map (\<lambda>ax. normalize_axis_index ax n) (map int xs) = map Inr xs"
    using assms(2) by (simp add: normalize_axis_index_def)
  show ?thesis
    unfolding normalize_axis_tuple_def m collect_Inr using assms(1) by simp
qed

lemma fold_list_insert_append:
  "map fst ps = [length acc..<length acc + length ps] \<Longrightarrow>
   fold (\<lambda>(dest, s) order. list_insert dest s order) ps acc = acc @ map snd ps"
proof (induction ps arbitrary: acc)
  case Nil
  show ?case by simp
next
  case (Cons p ps)
  obtain d s where p: "p = (d, s)" by (cases p)
  have "[length acc..<length acc + length (p # ps)] =
      length acc # [Suc (length acc)..<Suc (length acc) + length ps]"
    by (simp add: upt_conv_Cons del: upt_Suc)
  with Cons.prems p have d: "d = length acc"
    and rest: "map fst ps = [length (acc @ [s])..<length (acc @ [s]) + length ps]"
    by simp_all
  have "list_insert d s acc = acc @ [s]"
    using d by (simp add: list_insert_def)
  with Cons.IH [OF rest] p show ?case by simp
qed

lemma sorted_map_fst: "sorted (ps :: (nat \<times> nat) list) \<Longrightarrow> sorted (map fst ps)"
  by (induction ps) (auto simp: less_eq_prod_def)

lemma sorted_zip_perm:
  assumes len: "length dst = n" and set: "set dst = {0..<n}"
  shows "map snd (sort (zip dst [0..<n])) = map (index_of dst) [0..<n]
    \<and> map fst (sort (zip dst [0..<n])) = [0..<n]"
proof -
  let ?ps = "sort (zip dst [0..<n])"
  have dd: "distinct dst"
    using len set by (simp add: card_distinct)
  have lps: "length ?ps = n"
    using len by simp
  have "set (map fst ?ps) = set (map fst (zip dst [0..<n]))"
    by simp
  then have sf: "set (map fst ?ps) = {0..<n}"
    using len set by (simp only: map_fst_zip length_upt diff_zero)
  have "sorted (map fst ?ps)"
    by (rule sorted_map_fst) simp
  moreover have "distinct (map fst ?ps)"
    using sf lps by (intro card_distinct) simp
  ultimately have fst: "map fst ?ps = [0..<n]"
    using sf by (intro sorted_distinct_set_unique) simp_all
  have "map snd ?ps = map (index_of dst) [0..<n]"
  proof (rule nth_equalityI)
    show "length (map snd ?ps) = length (map (index_of dst) [0..<n])"
      using lps by simp
  next
    fix d assume "d < length (map snd ?ps)"
    with lps have d: "d < n" by simp
    have "fst (?ps ! d) = d"
      using fst d lps by (metis nth_map nth_upt add_0)
    moreover have "?ps ! d \<in> set (zip dst [0..<n])"
      using d lps by (metis nth_mem set_sort)
    ultimately obtain k where k: "k < n" "dst ! k = d" "snd (?ps ! d) = k"
      using len by (auto simp: in_set_zip)
    have "index_of dst (dst ! k) = k"
      using dd k len by (intro index_of_nth) simp_all
    with k d lps show "map snd ?ps ! d = map (index_of dst) [0..<n] ! d"
      by simp
  qed
  with fst show ?thesis by simp
qed

lemma index_of_eqI: "distinct xs \<Longrightarrow> k < length xs \<Longrightarrow> xs ! k = v \<Longrightarrow> index_of xs v = k"
  using index_of_nth by blast

lemma moveaxis_perm:
  assumes len: "length dst = n" and set: "set dst = {0..<n}" and nd: "ndim a = n"
  shows "moveaxis a (arange n) (map int dst) =
    Inr (tabulate (map (\<lambda>d. nd_shape a ! index_of dst d) [0..<n])
           (\<lambda>j. item a (map (\<lambda>k. j ! (dst ! k)) [0..<n])))"
proof -
  have dd: "distinct dst"
    using len set by (simp add: card_distinct)
  have src: "normalize_axis_tuple (arange n) (ndim a) = Inr [0..<n]"
    unfolding arange_def using nd by (intro normalize_axis_tuple_nat) simp_all
  have dst: "normalize_axis_tuple (map int dst) (ndim a) = Inr dst"
    using dd set nd by (intro normalize_axis_tuple_nat) simp_all
  note sz = sorted_zip_perm [OF len set]
  have "fold (\<lambda>(dest, s) order. list_insert dest s order) (sort (zip dst [0..<n])) []
      = [] @ map snd (sort (zip dst [0..<n]))"
    using sz len by (intro fold_list_insert_append) simp
  then have order: "fold (\<lambda>(dest, s) order. list_insert dest s order) (sort (zip dst [0..<n]))
      (filter (\<lambda>m. m \<notin> set [0..<n]) [0..<ndim a]) = map (index_of dst) [0..<n]"
    using sz nd by simp
  have inv: "index_of (map (index_of dst) [0..<n]) k = dst ! k" if k: "k < n" for k
  proof (rule index_of_eqI)
    have "inj_on (index_of dst) (set dst)"
      by (rule inj_on_inverseI [where g = "\<lambda>k. dst ! k"]) (simp add: nth_index_of)
    then show "distinct (map (index_of dst) [0..<n])"
      using set by (simp add: distinct_map)
    have "dst ! k \<in> set dst"
      using k len by simp
    then show "dst ! k < length (map (index_of dst) [0..<n])"
      using set by simp
    then show "map (index_of dst) [0..<n] ! (dst ! k) = k"
      using dd k len by (simp add: index_of_nth)
  qed
  have eq: "map (\<lambda>k. j ! index_of (map (index_of dst) [0..<n]) k) [0..<n] =
      map (\<lambda>k. j ! (dst ! k)) [0..<n]" for j :: "nat list"
    using inv by simp
  have tr: "np_transpose a (map (index_of dst) [0..<n]) =
      tabulate (map (\<lambda>d. nd_shape a ! index_of dst d) [0..<n])
           (\<lambda>j. item a (map (\<lambda>k. j ! (dst ! k)) [0..<n]))"
    by (simp add: np_transpose_def o_def eq)
  have "moveaxis a (arange n) (map int dst) =
      Inr (np_transpose a
        (fold (\<lambda>(dest, s) order. list_insert dest s order) (sort (zip dst [0..<n]))
           (filter (\<lambda>m. m \<notin> set [0..<n]) [0..<ndim a])))"
    unfolding moveaxis_def src dst using len by simp
  then show ?thesis
    by (simp only: order tr)
qed

lemma index_of_image: "distinct out \<Longrightarrow> index_of out ` set out = {0..<length out}"
proof (rule set_eqI)
  fix k assume d: "distinct out"
  show "k \<in> index_of out ` set out \<longleftrightarrow> k \<in> {0..<length out}"
  proof
    assume "k \<in> index_of out ` set out"
    then show "k \<in> {0..<length out}" by (auto simp: index_of_less)
  next
    assume "k \<in> {0..<length out}"
    then have "k < length out" by simp
    with d have "index_of out (out ! k) = k" by (rule index_of_nth)
    moreover have "out ! k \<in> set out" using \<open>k < length out\<close> by simp
    ultimately show "k \<in> index_of out ` set out" by force
  qed
qed

lemma moveaxis_named:
  assumes vs: "distinct vs" and out: "distinct out" and same: "set out = set vs"
    and nd: "length (nd_shape a) = length vs"
  shows "moveaxis a (arange (length vs)) (map (\<lambda>v. int (index_of out v)) vs) =
    Inr (tabulate (map (\<lambda>v. nd_shape a ! index_of vs v) out)
           (\<lambda>j. item a (map (\<lambda>v. j ! index_of out v) vs)))"
proof -
  let ?n = "length vs"
  let ?dst = "map (index_of out) vs"
  have lo: "length out = ?n"
    using vs out same by (metis distinct_card)
  have 1: "length ?dst = ?n" by simp
  have 2: "set ?dst = {0..<?n}"
    using index_of_image [OF out] same lo by simp
  have 3: "ndim a = ?n"
    using nd by (simp add: ndim_def)
  have dd: "distinct ?dst"
    using 1 2 by (simp add: card_distinct)
  have ix: "index_of ?dst d = index_of vs (out ! d)" if d: "d < ?n" for d
  proof (rule index_of_eqI [OF dd])
    have m: "out ! d \<in> set vs"
      using d lo same by (metis nth_mem)
    then show "index_of vs (out ! d) < length ?dst"
      by (simp add: index_of_less)
    show "?dst ! index_of vs (out ! d) = d"
      using m d lo out by (simp add: index_of_less nth_index_of index_of_nth)
  qed
  have sh: "map (\<lambda>d. nd_shape a ! index_of ?dst d) [0..<?n] =
      map (\<lambda>v. nd_shape a ! index_of vs v) out"
  proof -
    have "map (\<lambda>d. nd_shape a ! index_of ?dst d) [0..<?n] =
        map (\<lambda>d. nd_shape a ! index_of vs (out ! d)) [0..<length out]"
      using ix lo by simp
    also have "\<dots> = map (\<lambda>v. nd_shape a ! index_of vs v) (map (\<lambda>d. out ! d) [0..<length out])"
      by (simp add: o_def)
    finally show ?thesis by (simp add: map_nth)
  qed
  have en: "map (\<lambda>k. j ! (?dst ! k)) [0..<?n] = map (\<lambda>v. j ! index_of out v) vs" for j :: "nat list"
    by (rule nth_equalityI) simp_all
  have "map (\<lambda>v. int (index_of out v)) vs = map int ?dst"
    by simp
  then show ?thesis
    using moveaxis_perm [OF 1 2 3] by (simp only: sh en)
qed

section \<open>New axes and broadcasting\<close>

lemma flat_index_ones: "flat_index (replicate r (Suc 0)) (replicate r 0) = 0"
  by (induction r) simp_all

lemma flat_index_trailing:
  "length j = length sh \<Longrightarrow>
   flat_index (sh @ replicate r (Suc 0)) (j @ replicate r 0) = flat_index sh j"
  by (induction j sh rule: list_induct2) (simp_all add: flat_index_ones)

lemma flat_index_leading:
  "flat_index (replicate p (Suc 0) @ sh) (replicate p 0 @ j) = flat_index sh j"
  by (induction p) simp_all

lemma item_trailing_axes:
  "length j = length (nd_shape a) \<Longrightarrow> item (trailing_axes a r) (j @ replicate r 0) = item a j"
  by (simp add: item_def trailing_axes_def flat_index_trailing)

lemma item_leading_axes:
  "item (leading_axes p a) (replicate p 0 @ j) = item a j"
  by (simp add: item_def leading_axes_def flat_index_leading)

lemma broadcast_dims_ones: "length B = r \<Longrightarrow> broadcast_dims (replicate r (Suc 0)) B = Inr B"
  by (induction r arbitrary: B) (auto simp: length_Suc_conv)

lemma broadcast_dims_same:
  "broadcast_dims (S @ X) (S @ Y) =
     (case broadcast_dims X Y of Inl e \<Rightarrow> Inl e | Inr sh \<Rightarrow> Inr (S @ sh))"
  by (induction S) (simp_all split: sum.splits)

lemma broadcast_dims_lead:
  "length A = p \<Longrightarrow> broadcast_dims (A @ X) (replicate p (Suc 0) @ Y) =
     (case broadcast_dims X Y of Inl e \<Rightarrow> Inl e | Inr sh \<Rightarrow> Inr (A @ sh))"
  by (induction A arbitrary: p) (auto split: sum.splits)

lemma broadcast_shapes_product:
  assumes "length A = p" and "length B = r"
  shows "broadcast_shapes ((A @ S) @ replicate r 1) (replicate p 1 @ S @ B) = Inr (A @ S @ B)"
proof -
  have "broadcast_dims (A @ S @ replicate r (Suc 0)) (replicate p (Suc 0) @ S @ B)
      = Inr (A @ S @ B)"
    using assms by (simp add: broadcast_dims_lead broadcast_dims_same broadcast_dims_ones)
  then show ?thesis
    using assms by (simp add: broadcast_shapes_def)
qed

lemma broadcast_entries_valid:
  "valid_index sh j \<Longrightarrow> map (\<lambda>(n, i). if n = Suc 0 then 0 else i) (zip sh j) = j"
  unfolding valid_index_def
  by (induction j sh rule: list_all2_induct) auto

lemma broadcast_entries_ones:
  "length jb = r \<Longrightarrow> map (\<lambda>(n, i). if n = Suc 0 then 0 else i) (zip (replicate r (Suc 0)) jb)
     = replicate r (0::nat)"
  by (induction jb arbitrary: r) auto

lemma broadcast_index_trailing:
  assumes "valid_index sh j" and "length jb = r"
  shows "broadcast_index (sh @ replicate r 1) (j @ jb) = j @ replicate r 0"
proof -
  have "length sh = length j"
    using assms(1) by (simp add: valid_index_length)
  then show ?thesis
    using broadcast_entries_valid [OF assms(1)] broadcast_entries_ones [OF assms(2)] assms(2)
    by (simp add: broadcast_index_def)
qed

lemma broadcast_index_leading:
  assumes "length ja = p" and "valid_index sh j"
  shows "broadcast_index (replicate p 1 @ sh) (ja @ j) = replicate p 0 @ j"
proof -
  have "length sh = length j"
    using assms(2) by (simp add: valid_index_length)
  then show ?thesis
    using broadcast_entries_valid [OF assms(2)] broadcast_entries_ones [OF assms(1)] assms(1)
    by (simp add: broadcast_index_def)
qed

section \<open>The alignment of the product\<close>

lemma intersect1d_closed:
  "intersect1d vx vy =
     (filter (\<lambda>v. v \<in> set vy) (sort (remdups vx)),
      map (index_of vx) (filter (\<lambda>v. v \<in> set vy) (sort (remdups vx))),
      map (index_of vy) (filter (\<lambda>v. v \<in> set vy) (sort (remdups vx))))"
  by (simp add: intersect1d_def Let_def)

lemma shared_set: "set (filter (\<lambda>v. v \<in> set vy) (sort (remdups vx))) = set vx \<inter> set vy"
  by auto

lemma shared_distinct: "distinct (filter (\<lambda>v. v \<in> set vy) (sort (remdups vx)))"
  by simp

lemma shared_sorted_list:
  "filter (\<lambda>v. v \<in> set vy) (sort (remdups vx)) = sorted_list_of_set (set vx \<inter> set vy)"
proof -
  have "sorted (filter (\<lambda>v. v \<in> set vy) (sort (remdups vx)))"
    by (rule sorted_wrt_filter) simp
  then show ?thesis
    using shared_set [of vy vx] shared_distinct [of vy vx]
    by (metis List.finite_set finite_Int sorted_list_of_set.idem_if_sorted_distinct)
qed

lemma x_ind_closed:
  fixes vx :: "'v list"
  assumes vx: "distinct vx" and xy: "distinct xy" and sub: "set xy = set vx \<inter> set vy"
  shows "assign_index
           (assign_mask (replicate (length vx) (- 1)) (isin vx xy True)
              (arange (count_true (isin vx xy True))))
           (map (index_of vx) xy)
           (map (\<lambda>k. k + int (count_true (isin vx xy True))) (arange (length xy)))
         = map (\<lambda>v. int (index_of (setdiff1d vx vy @ xy) v)) vx"
    (is "?lhs = ?rhs")
proof -
  have f: "filter (\<lambda>v. v \<notin> set xy) vx = setdiff1d vx vy"
    unfolding setdiff1d_def using sub by (intro filter_cong) auto
  have c: "count_true (isin vx xy True) = length (setdiff1d vx vy)"
    using f by (simp add: isin_def count_true_map)
  have sub': "set xy \<subseteq> set vx"
    using sub by simp
  have "?lhs = assign_index
           (assign_mask (replicate (length vx) (- 1)) (map (\<lambda>v. v \<notin> set xy) vx)
              (map (\<lambda>k. int k + int 0) [0..<length (filter (\<lambda>v. v \<notin> set xy) vx)]))
           (map (index_of vx) xy)
           (map (\<lambda>k. int k + int (length (setdiff1d vx vy))) [0..<length xy])"
    unfolding c by (simp add: isin_def arange_def o_def f)
  also have "\<dots> = map (\<lambda>v. if v \<in> set xy
                  then int (index_of xy v) + int (length (setdiff1d vx vy))
                  else int (index_of (filter (\<lambda>v. v \<notin> set xy) vx) v) + int 0) vx"
    by (rule dest_axes [OF vx xy sub'])
  also have "\<dots> = ?rhs"
  proof (rule map_cong [OF refl])
    fix v assume "v \<in> set vx"
    then have "v \<in> set (setdiff1d vx vy) \<longleftrightarrow> v \<notin> set xy"
      using sub by (auto simp: setdiff1d_def)
    then show "(if v \<in> set xy then int (index_of xy v) + int (length (setdiff1d vx vy))
                else int (index_of (filter (\<lambda>v. v \<notin> set xy) vx) v) + int 0)
               = int (index_of (setdiff1d vx vy @ xy) v)"
      unfolding f by (simp add: index_of_append)
  qed
  finally show ?thesis .
qed

lemma y_ind_closed:
  fixes vy :: "'v list"
  assumes vy: "distinct vy" and xy: "distinct xy" and sub: "set xy = set vx \<inter> set vy"
  shows "assign_index
           (assign_mask (replicate (length vy) (- 1)) (isin vy xy True)
              (map (\<lambda>k. k + int (count_true (map Not (isin vy xy True))))
                 (arange (count_true (isin vy xy True)))))
           (map (index_of vy) xy)
           (arange (length xy))
         = map (\<lambda>v. int (index_of (xy @ setdiff1d vy vx) v)) vy"
    (is "?lhs = ?rhs")
proof -
  have f: "filter (\<lambda>v. v \<notin> set xy) vy = setdiff1d vy vx"
    unfolding setdiff1d_def using sub by (intro filter_cong) auto
  have c: "count_true (isin vy xy True) = length (setdiff1d vy vx)"
    using f by (simp add: isin_def count_true_map)
  have "distinct (filter (\<lambda>v. v \<in> set xy) vy)"
    using vy by simp
  moreover have "set (filter (\<lambda>v. v \<in> set xy) vy) = set xy"
    using sub by auto
  ultimately have "length (filter (\<lambda>v. v \<in> set xy) vy) = length xy"
    using xy by (metis distinct_card)
  then have n: "count_true (map Not (isin vy xy True)) = length xy"
    by (simp add: isin_def count_true_def filter_map o_def)
  have sub': "set xy \<subseteq> set vy"
    using sub by simp
  have "?lhs = assign_index
           (assign_mask (replicate (length vy) (- 1)) (map (\<lambda>v. v \<notin> set xy) vy)
              (map (\<lambda>k. int k + int (length xy)) [0..<length (filter (\<lambda>v. v \<notin> set xy) vy)]))
           (map (index_of vy) xy)
           (map (\<lambda>k. int k + int 0) [0..<length xy])"
    unfolding c n by (simp add: isin_def arange_def o_def f)
  also have "\<dots> = map (\<lambda>v. if v \<in> set xy then int (index_of xy v) + int 0
                  else int (index_of (filter (\<lambda>v. v \<notin> set xy) vy) v) + int (length xy)) vy"
    by (rule dest_axes [OF vy xy sub'])
  also have "\<dots> = ?rhs"
  proof (rule map_cong [OF refl])
    fix v assume "v \<in> set vy"
    show "(if v \<in> set xy then int (index_of xy v) + int 0
           else int (index_of (filter (\<lambda>v. v \<notin> set xy) vy) v) + int (length xy))
          = int (index_of (xy @ setdiff1d vy vx) v)"
      unfolding f by (simp add: index_of_append)
  qed
  finally show ?thesis .
qed

section \<open>The product in closed form\<close>

lemma valid_index_split:
  "valid_index (s1 @ s2) j \<Longrightarrow>
   \<exists>j1 j2. j = j1 @ j2 \<and> valid_index s1 j1 \<and> valid_index s2 j2"
  unfolding valid_index_def by (auto simp: list_all2_append2)

lemma product_entry:
  fixes dx dy :: "'a::times ndarray"
  assumes vx: "distinct vx" and vy: "distinct vy"
    and lx: "length (nd_shape dx) = length vx" and ly: "length (nd_shape dy) = length vy"
    and xy: "distinct xy" and sxy: "set xy = set vx \<inter> set vy"
    and xo: "xo = setdiff1d vx vy" and yo: "yo = setdiff1d vy vx"
    and eq: "map (\<lambda>v. nd_shape dx ! index_of vx v) xy = map (\<lambda>v. nd_shape dy ! index_of vy v) xy"
    and X: "X = tabulate (map (\<lambda>v. nd_shape dx ! index_of vx v) (xo @ xy))
                 (\<lambda>j. item dx (map (\<lambda>v. j ! index_of (xo @ xy) v) vx))"
    and Y: "Y = tabulate (map (\<lambda>v. nd_shape dy ! index_of vy v) (xy @ yo))
                 (\<lambda>j. item dy (map (\<lambda>v. j ! index_of (xy @ yo) v) vy))"
    and j: "valid_index (map (\<lambda>v. nd_shape dx ! index_of vx v) xo
               @ map (\<lambda>v. nd_shape dx ! index_of vx v) xy
               @ map (\<lambda>v. nd_shape dy ! index_of vy v) yo) j"
  shows "item (trailing_axes X (length yo))
             (broadcast_index (nd_shape (trailing_axes X (length yo))) j)
         * item (leading_axes (length xo) Y)
             (broadcast_index (nd_shape (leading_axes (length xo) Y)) j)
       = item dx (map (\<lambda>v. j ! index_of (xo @ xy @ yo) v) vx)
         * item dy (map (\<lambda>v. j ! index_of (xo @ xy @ yo) v) vy)"
proof -
  let ?cx = "\<lambda>v. nd_shape dx ! index_of vx v"
  let ?cy = "\<lambda>v. nd_shape dy ! index_of vy v"
  from valid_index_split [OF j] obtain ja j' where j1: "j = ja @ j'"
    and va: "valid_index (map ?cx xo) ja" and v': "valid_index (map ?cx xy @ map ?cy yo) j'"
    by blast
  from valid_index_split [OF v'] obtain js jb where j2: "j' = js @ jb"
    and vs: "valid_index (map ?cx xy) js" and vb: "valid_index (map ?cy yo) jb"
    by blast
  have la: "length ja = length xo" and ls: "length js = length xy" and lb: "length jb = length yo"
    using va vs vb by (simp_all add: valid_index_length)
  have vas: "valid_index (map ?cx (xo @ xy)) (ja @ js)"
    using va vs la by (simp add: valid_index_append)
  have vsb: "valid_index (map ?cy (xy @ yo)) (js @ jb)"
    using vs vb ls eq by (simp add: valid_index_append)
  have mem_x: "v \<in> set (xo @ xy)" if "v \<in> set vx" for v
    using that sxy xo by (auto simp: setdiff1d_def)
  have mem_y: "v \<in> set (xy @ yo) \<and> v \<notin> set xo" if "v \<in> set vy" for v
    using that sxy xo yo by (auto simp: setdiff1d_def)
  have "broadcast_index (nd_shape (trailing_axes X (length yo))) j = (ja @ js) @ replicate (length yo) 0"
    using broadcast_index_trailing [OF vas lb] by (simp add: trailing_axes_def X j1 j2)
  moreover have "item (trailing_axes X (length yo)) ((ja @ js) @ replicate (length yo) 0) = item X (ja @ js)"
    by (rule item_trailing_axes) (simp add: X la ls)
  moreover have "item X (ja @ js) = item dx (map (\<lambda>v. (ja @ js) ! index_of (xo @ xy) v) vx)"
    unfolding X by (rule item_tabulate [OF vas])
  moreover have "map (\<lambda>v. (ja @ js) ! index_of (xo @ xy) v) vx = map (\<lambda>v. j ! index_of (xo @ xy @ yo) v) vx"
  proof (rule map_cong [OF refl])
    fix v assume "v \<in> set vx"
    then have m: "v \<in> set (xo @ xy)" by (rule mem_x)
    then have "index_of (xo @ xy) v < length (ja @ js)"
      using index_of_less [OF m] la ls by simp
    moreover have "index_of (xo @ xy @ yo) v = index_of (xo @ xy) v"
      using m index_of_append [of "xo @ xy" yo v] by simp
    ultimately show "(ja @ js) ! index_of (xo @ xy) v = j ! index_of (xo @ xy @ yo) v"
      using nth_append [of "ja @ js" jb] by (simp add: j1 j2)
  qed
  ultimately have left: "item (trailing_axes X (length yo))
             (broadcast_index (nd_shape (trailing_axes X (length yo))) j)
      = item dx (map (\<lambda>v. j ! index_of (xo @ xy @ yo) v) vx)"
    by simp
  have "broadcast_index (nd_shape (leading_axes (length xo) Y)) j = replicate (length xo) 0 @ (js @ jb)"
    using broadcast_index_leading [OF la vsb] by (simp add: leading_axes_def Y j1 j2)
  moreover have "item (leading_axes (length xo) Y) (replicate (length xo) 0 @ (js @ jb)) = item Y (js @ jb)"
    by (rule item_leading_axes)
  moreover have "item Y (js @ jb) = item dy (map (\<lambda>v. (js @ jb) ! index_of (xy @ yo) v) vy)"
    unfolding Y by (rule item_tabulate [OF vsb])
  moreover have "map (\<lambda>v. (js @ jb) ! index_of (xy @ yo) v) vy = map (\<lambda>v. j ! index_of (xo @ xy @ yo) v) vy"
  proof (rule map_cong [OF refl])
    fix v assume "v \<in> set vy"
    then have m: "v \<in> set (xy @ yo)" "v \<notin> set xo" using mem_y by simp_all
    have "index_of (xo @ xy @ yo) v = length ja + index_of (xy @ yo) v"
      using m la by (simp add: index_of_append)
    then show "(js @ jb) ! index_of (xy @ yo) v = j ! index_of (xo @ xy @ yo) v"
      by (simp add: j1 j2)
  qed
  ultimately have right: "item (leading_axes (length xo) Y)
             (broadcast_index (nd_shape (leading_axes (length xo) Y)) j)
      = item dy (map (\<lambda>v. j ! index_of (xo @ xy @ yo) v) vy)"
    by simp
  show ?thesis
    by (simp only: left right)
qed

lemma factor_product_closed:
  fixes x y :: "('v::linorder, 'a::times) factor"
  assumes ix: "factor_inv x" and iy: "factor_inv y"
    and dx: "get_distribution x = Some dx" and dy: "get_distribution y = Some dy"
    and ne: "set (get_variables x) \<inter> set (get_variables y) \<noteq> {}"
    and eq: "\<forall>v \<in> set (get_variables x) \<inter> set (get_variables y).
               nd_shape dx ! index_of (get_variables x) v
               = nd_shape dy ! index_of (get_variables y) v"
    and xy: "xy = filter (\<lambda>v. v \<in> set (get_variables y)) (sort (remdups (get_variables x)))"
    and xo: "xo = setdiff1d (get_variables x) (get_variables y)"
    and yo: "yo = setdiff1d (get_variables y) (get_variables x)"
    and sh: "sh = map (\<lambda>v. nd_shape dx ! index_of (get_variables x) v) xo
               @ map (\<lambda>v. nd_shape dx ! index_of (get_variables x) v) xy
               @ map (\<lambda>v. nd_shape dy ! index_of (get_variables y) v) yo"
  shows "factor_product x y =
    (if NPY_MAXDIMS < card (set (get_variables x) \<union> set (get_variables y)) then Inl IndexError
     else Inr \<lparr>get_variables = xo @ xy @ yo,
         get_distribution = Some (tabulate sh
           (\<lambda>j. item dx (map (\<lambda>v. j ! index_of (xo @ xy @ yo) v) (get_variables x))
              * item dy (map (\<lambda>v. j ! index_of (xo @ xy @ yo) v) (get_variables y)))),
         get_shape = Some sh\<rparr>)"
proof -
  let ?vx = "get_variables x"
  let ?vy = "get_variables y"
  let ?cx = "\<lambda>v. nd_shape dx ! index_of ?vx v"
  let ?cy = "\<lambda>v. nd_shape dy ! index_of ?vy v"
  define X where "X = tabulate (map ?cx (xo @ xy))
                 (\<lambda>j. item dx (map (\<lambda>v. j ! index_of (xo @ xy) v) ?vx))"
  define Y where "Y = tabulate (map ?cy (xy @ yo))
                 (\<lambda>j. item dy (map (\<lambda>v. j ! index_of (xy @ yo) v) ?vy))"
  from ix dx have vx: "distinct ?vx" and sx: "get_shape x = Some (nd_shape dx)"
    and lx: "length (nd_shape dx) = length ?vx"
    by (simp_all add: factor_inv_def)
  from iy dy have vy: "distinct ?vy" and sy: "get_shape y = Some (nd_shape dy)"
    and ly: "length (nd_shape dy) = length ?vy"
    by (simp_all add: factor_inv_def)
  have nn: "\<not> is_none x" "\<not> is_none y"
    using dx dy by (simp_all add: is_none_def)
  have sxy: "set xy = set ?vx \<inter> set ?vy"
    unfolding xy by (rule shared_set)
  have dxy: "distinct xy"
    unfolding xy by (rule shared_distinct)
  have int: "intersect1d ?vx ?vy = (xy, map (index_of ?vx) xy, map (index_of ?vy) xy)"
    unfolding xy by (rule intersect1d_closed)
  have l0: "length xy \<noteq> 0"
    using ne sxy by auto
  have cards: "map ?cx xy = map ?cy xy"
    using eq sxy by simp
  then have cards': "map ((!) (nd_shape dx)) (map (index_of ?vx) xy)
      = map ((!) (nd_shape dy)) (map (index_of ?vy) xy)"
    by (simp add: o_def)
  note xi = x_ind_closed [OF vx dxy sxy, folded xo]
  note yi = y_ind_closed [OF vy dxy sxy, folded yo]
  have dox: "distinct (xo @ xy)" "set (xo @ xy) = set ?vx"
    using vx dxy sxy by (auto simp: xo setdiff1d_def)
  have doy: "distinct (xy @ yo)" "set (xy @ yo) = set ?vy"
    using vy dxy sxy by (auto simp: yo setdiff1d_def)
  have mx: "moveaxis dx (arange (length ?vx)) (map (\<lambda>v. int (index_of (xo @ xy) v)) ?vx) = Inr X"
    unfolding X_def by (rule moveaxis_named [OF vx dox lx])
  have my: "moveaxis dy (arange (length ?vy)) (map (\<lambda>v. int (index_of (xy @ yo) v)) ?vy) = Inr Y"
    unfolding Y_def by (rule moveaxis_named [OF vy doy ly])
  have bs: "broadcast_shapes (nd_shape (trailing_axes X (length yo)))
      (nd_shape (leading_axes (length xo) Y)) = Inr sh"
    using broadcast_shapes_product [of "map ?cx xo" "length xo" "map ?cy yo" "length yo" "map ?cx xy"]
    by (simp add: trailing_axes_def leading_axes_def X_def Y_def sh cards)
  have tab: "tabulate sh (\<lambda>j. item (trailing_axes X (length yo))
                 (broadcast_index (nd_shape (trailing_axes X (length yo))) j)
             * item (leading_axes (length xo) Y)
                 (broadcast_index (nd_shape (leading_axes (length xo) Y)) j))
      = tabulate sh (\<lambda>j. item dx (map (\<lambda>v. j ! index_of (xo @ xy @ yo) v) ?vx)
              * item dy (map (\<lambda>v. j ! index_of (xo @ xy @ yo) v) ?vy))"
  proof (rule tabulate_cong)
    fix j assume "valid_index sh j"
    then show "item (trailing_axes X (length yo))
                 (broadcast_index (nd_shape (trailing_axes X (length yo))) j)
             * item (leading_axes (length xo) Y)
                 (broadcast_index (nd_shape (leading_axes (length xo) Y)) j)
        = item dx (map (\<lambda>v. j ! index_of (xo @ xy @ yo) v) ?vx)
              * item dy (map (\<lambda>v. j ! index_of (xo @ xy @ yo) v) ?vy)"
      unfolding sh by (intro product_entry [OF vx vy lx ly dxy sxy xo yo cards X_def Y_def])
  qed
  have mul: "multiply (trailing_axes X (length yo)) (leading_axes (length xo) Y)
      = Inr (tabulate sh (\<lambda>j. item dx (map (\<lambda>v. j ! index_of (xo @ xy @ yo) v) ?vx)
              * item dy (map (\<lambda>v. j ! index_of (xo @ xy @ yo) v) ?vy)))"
    unfolding multiply_def bs using tab by simp
  have init: "factor_init (Some (xo @ xy @ yo)) (Some (tabulate sh F))
      = Inr \<lparr>get_variables = xo @ xy @ yo, get_distribution = Some (tabulate sh F),
             get_shape = Some sh\<rparr>" for F :: "nat list \<Rightarrow> 'a"
    by (simp add: factor_init_def sh)
  have "distinct (xo @ xy @ yo)" and "set (xo @ xy @ yo) = set ?vx \<union> set ?vy"
    using vx vy dxy sxy by (auto simp: xo yo setdiff1d_def)
  then have cnt: "length xo + (length xy + length yo) = card (set ?vx \<union> set ?vy)"
    using distinct_card [of "xo @ xy @ yo"] by simp
  have ex: "expand_trailing X (length yo) =
      (if NPY_MAXDIMS < card (set ?vx \<union> set ?vy) then Inl IndexError
       else Inr (trailing_axes X (length yo)))"
    using cnt by (simp add: expand_trailing_def X_def)
  have ey: "expand_leading (length xo) Y =
      (if NPY_MAXDIMS < card (set ?vx \<union> set ?vy) then Inl IndexError
       else Inr (leading_axes (length xo) Y))"
    using cnt by (simp add: expand_leading_def Y_def)
  show ?thesis
    unfolding factor_product_def
    using nn l0 cards'
    by (simp add: dx dy sx sy int Let_def xi yi mx my ex ey mul init
        xo [symmetric] yo [symmetric])
qed

section \<open>When the product fails\<close>

lemma factor_product_no_common:
  fixes x y :: "('v::linorder, 'a::times) factor"
  assumes "get_distribution x = Some dx" and "get_distribution y = Some dy"
    and "get_shape x = Some sx" and "get_shape y = Some sy"
    and "set (get_variables x) \<inter> set (get_variables y) = {}"
  shows "factor_product x y = Inl (Exception ''Factors do not have common variables'')"
proof -
  have "filter (\<lambda>v. v \<in> set (get_variables y)) (sort (remdups (get_variables x))) = []"
    using assms(5) by (auto simp: filter_empty_conv)
  then show ?thesis
    using assms(1-4)
    by (simp add: factor_product_def is_none_def intersect1d_closed)
qed

lemma factor_product_mismatch:
  fixes x y :: "('v::linorder, 'a::times) factor"
  assumes "get_distribution x = Some dx" and "get_distribution y = Some dy"
    and "get_shape x = Some sx" and "get_shape y = Some sy"
    and "v \<in> set (get_variables x) \<inter> set (get_variables y)"
    and "sx ! index_of (get_variables x) v \<noteq> sy ! index_of (get_variables y) v"
  shows "factor_product x y = Inl (Exception ''Common variables have different order'')"
proof -
  let ?xy = "filter (\<lambda>v. v \<in> set (get_variables y)) (sort (remdups (get_variables x)))"
  have v: "v \<in> set ?xy"
    using assms(5) by simp
  then have ne: "?xy \<noteq> []"
    by (metis empty_iff empty_set)
  have "map ((!) sx) (map (index_of (get_variables x)) ?xy)
      \<noteq> map ((!) sy) (map (index_of (get_variables y)) ?xy)"
  proof
    assume "map ((!) sx) (map (index_of (get_variables x)) ?xy)
      = map ((!) sy) (map (index_of (get_variables y)) ?xy)"
    then have "\<forall>w \<in> set ?xy. sx ! index_of (get_variables x) w = sy ! index_of (get_variables y) w"
      by (simp only: map_map map_eq_conv o_def)
    with v assms(6) show False by blast
  qed
  with ne show ?thesis
    using assms(1-4)
    by (simp add: factor_product_def is_none_def intersect1d_closed)
qed

text \<open>
  Claim C6. For two factors of the data model that both have a tensor, the product
  raises the notebook's exception when they have no variable in common, and raises it
  when some common variable has different cardinalities in the two. Otherwise it
  returns a factor when the two factors have at most \<open>NPY_MAXDIMS\<close> variables between
  them, and fails with numpy's \<open>IndexError\<close> when they have more.
\<close>

theorem factor_product_failures:
  fixes x y :: "('v::linorder, 'a::times) factor"
  assumes "factor_inv x" and "factor_inv y"
    and "get_distribution x = Some dx" and "get_distribution y = Some dy"
  shows "(set (get_variables x) \<inter> set (get_variables y) = {} \<longrightarrow>
            factor_product x y = Inl (Exception ''Factors do not have common variables''))
    \<and> ((\<exists>v \<in> set (get_variables x) \<inter> set (get_variables y).
            nd_shape dx ! index_of (get_variables x) v
            \<noteq> nd_shape dy ! index_of (get_variables y) v) \<longrightarrow>
          factor_product x y = Inl (Exception ''Common variables have different order''))
    \<and> (set (get_variables x) \<inter> set (get_variables y) \<noteq> {}
        \<and> (\<forall>v \<in> set (get_variables x) \<inter> set (get_variables y).
              nd_shape dx ! index_of (get_variables x) v
              = nd_shape dy ! index_of (get_variables y) v)
        \<and> card (set (get_variables x) \<union> set (get_variables y)) \<le> NPY_MAXDIMS \<longrightarrow>
          (\<exists>r. factor_product x y = Inr r))
    \<and> (set (get_variables x) \<inter> set (get_variables y) \<noteq> {}
        \<and> (\<forall>v \<in> set (get_variables x) \<inter> set (get_variables y).
              nd_shape dx ! index_of (get_variables x) v
              = nd_shape dy ! index_of (get_variables y) v)
        \<and> NPY_MAXDIMS < card (set (get_variables x) \<union> set (get_variables y)) \<longrightarrow>
          factor_product x y = Inl IndexError)"
proof -
  from assms have sx: "get_shape x = Some (nd_shape dx)" and sy: "get_shape y = Some (nd_shape dy)"
    by (simp_all add: factor_inv_def)
  have 1: "factor_product x y = Inl (Exception ''Factors do not have common variables'')"
    if "set (get_variables x) \<inter> set (get_variables y) = {}"
    using assms(3,4) sx sy that by (rule factor_product_no_common)
  have 2: "factor_product x y = Inl (Exception ''Common variables have different order'')"
    if "\<exists>v \<in> set (get_variables x) \<inter> set (get_variables y).
            nd_shape dx ! index_of (get_variables x) v
            \<noteq> nd_shape dy ! index_of (get_variables y) v"
    using that factor_product_mismatch [OF assms(3,4) sx sy] by blast
  have 3: "\<exists>r. factor_product x y = Inr r"
    if "set (get_variables x) \<inter> set (get_variables y) \<noteq> {}"
      and "\<forall>v \<in> set (get_variables x) \<inter> set (get_variables y).
              nd_shape dx ! index_of (get_variables x) v
              = nd_shape dy ! index_of (get_variables y) v"
      and "card (set (get_variables x) \<union> set (get_variables y)) \<le> NPY_MAXDIMS"
    using factor_product_closed [OF assms that(1,2) refl refl refl refl] that(3) by simp
  have 4: "factor_product x y = Inl IndexError"
    if "set (get_variables x) \<inter> set (get_variables y) \<noteq> {}"
      and "\<forall>v \<in> set (get_variables x) \<inter> set (get_variables y).
              nd_shape dx ! index_of (get_variables x) v
              = nd_shape dy ! index_of (get_variables y) v"
      and "NPY_MAXDIMS < card (set (get_variables x) \<union> set (get_variables y))"
    using factor_product_closed [OF assms that(1,2) refl refl refl refl] that(3) by simp
  from 1 2 3 4 show ?thesis by blast
qed

theorem factor_product_failures_witness:
  "factor_inv phi_1 \<and> factor_inv phi_2 \<and> factor_inv phi_c \<and> factor_inv phi_b3
   \<and> factor_inv phi_wide_1 \<and> factor_inv phi_wide_2
   \<and> set (get_variables phi_1) \<inter> set (get_variables phi_c) = {}
   \<and> factor_product phi_1 phi_c = Inl (Exception ''Factors do not have common variables'')
   \<and> ''b'' \<in> set (get_variables phi_1) \<inter> set (get_variables phi_b3)
   \<and> [3, 2 :: nat] ! index_of (get_variables phi_1) ''b'' \<noteq> [3] ! index_of (get_variables phi_b3) ''b''
   \<and> factor_product phi_1 phi_b3 = Inl (Exception ''Common variables have different order'')
   \<and> set (get_variables phi_1) \<inter> set (get_variables phi_2) = {''b''}
   \<and> [3, 2 :: nat] ! index_of (get_variables phi_1) ''b'' = [2, 2] ! index_of (get_variables phi_2) ''b''
   \<and> card (set (get_variables phi_1) \<union> set (get_variables phi_2)) \<le> NPY_MAXDIMS
   \<and> (\<exists>r. factor_product phi_1 phi_2 = Inr r)
   \<and> factor_product phi_1 phi_2 = Inr phi_3
   \<and> set (get_variables phi_wide_1) \<inter> set (get_variables phi_wide_2) = {16}
   \<and> replicate 17 (1 :: nat) ! index_of (get_variables phi_wide_1) 16
       = replicate 17 1 ! index_of (get_variables phi_wide_2) 16
   \<and> NPY_MAXDIMS < card (set (get_variables phi_wide_1) \<union> set (get_variables phi_wide_2))
   \<and> factor_product phi_wide_1 phi_wide_2 = Inl IndexError"
proof -
  have i1: "factor_inv phi_1" and i2: "factor_inv phi_2" and ic: "factor_inv phi_c"
    and ib: "factor_inv phi_b3"
    by (simp_all add: factor_inv_def nd_wf_def phi_1_def phi_2_def phi_c_def phi_b3_def)
  have iw1: "factor_inv phi_wide_1" and iw2: "factor_inv phi_wide_2"
    by (simp_all add: factor_inv_def nd_wf_def phi_wide_1_def phi_wide_2_def)
  have d1: "get_distribution phi_1 = Some (NDArray [3, 2] [5/10, 8/10, 1/10, 0, 3/10, 9/10])"
    by (simp add: phi_1_def)
  have d2: "get_distribution phi_2 = Some (NDArray [2, 2] [5/10, 7/10, 1/10, 2/10])"
    by (simp add: phi_2_def)
  have dc: "get_distribution phi_c = Some (NDArray [2] [2, 3])"
    by (simp add: phi_c_def)
  have db: "get_distribution phi_b3 = Some (NDArray [3] [1, 2, 3])"
    by (simp add: phi_b3_def)
  have dw1: "get_distribution phi_wide_1 = Some (NDArray (replicate 17 1) [1])"
    by (simp add: phi_wide_1_def)
  have dw2: "get_distribution phi_wide_2 = Some (NDArray (replicate 17 1) [1])"
    by (simp add: phi_wide_2_def)
  have v1: "get_variables phi_1 = [''a'', ''b'']" and v2: "get_variables phi_2 = [''b'', ''c'']"
    and vc: "get_variables phi_c = [''c'']" and vb: "get_variables phi_b3 = [''b'']"
    by (simp_all add: phi_1_def phi_2_def phi_c_def phi_b3_def)
  have vw1: "get_variables phi_wide_1 = [0..<17]" and vw2: "get_variables phi_wide_2 = [16..<33]"
    by (simp_all add: phi_wide_1_def phi_wide_2_def)
  have c12: "card (set (get_variables phi_1) \<union> set (get_variables phi_2)) \<le> NPY_MAXDIMS"
    unfolding v1 v2 NPY_MAXDIMS_def by code_simp
  have sw: "set (get_variables phi_wide_1) \<inter> set (get_variables phi_wide_2) = {16}"
    unfolding vw1 vw2 set_upt by auto
  have "set (get_variables phi_wide_1) \<union> set (get_variables phi_wide_2) = {0..<33}"
    unfolding vw1 vw2 set_upt by auto
  then have cw: "NPY_MAXDIMS < card (set (get_variables phi_wide_1) \<union> set (get_variables phi_wide_2))"
    by (simp add: NPY_MAXDIMS_def)
  have kw1: "index_of (get_variables phi_wide_1) 16 = 16"
    unfolding vw1 by code_simp
  have kw2: "index_of (get_variables phi_wide_2) 16 = 0"
    unfolding vw2 by code_simp
  have ew: "replicate 17 (1 :: nat) ! index_of (get_variables phi_wide_1) 16
       = replicate 17 1 ! index_of (get_variables phi_wide_2) 16"
    by (simp add: kw1 kw2)
  have a: "factor_product phi_1 phi_c = Inl (Exception ''Factors do not have common variables'')"
    using factor_product_failures [OF i1 ic d1 dc] by (simp add: v1 vc)
  have b: "factor_product phi_1 phi_b3 = Inl (Exception ''Common variables have different order'')"
    using factor_product_failures [OF i1 ib d1 db] by (simp add: v1 vb)
  have s: "set (get_variables phi_1) \<inter> set (get_variables phi_2) = {''b''}"
    by (auto simp: v1 v2)
  have q12: "\<forall>v \<in> set (get_variables phi_1) \<inter> set (get_variables phi_2).
      nd_shape (NDArray [3, 2] [5/10, 8/10, 1/10, 0, 3/10, 9/10 :: rat]) ! index_of (get_variables phi_1) v
      = nd_shape (NDArray [2, 2] [5/10, 7/10, 1/10, 2/10 :: rat]) ! index_of (get_variables phi_2) v"
    unfolding s by (simp add: v1 v2)
  have c: "\<exists>r. factor_product phi_1 phi_2 = Inr r"
    using factor_product_failures [OF i1 i2 d1 d2] s q12 c12 by blast
  have qw: "\<forall>v \<in> set (get_variables phi_wide_1) \<inter> set (get_variables phi_wide_2).
      nd_shape (NDArray (replicate 17 1) [1 :: int]) ! index_of (get_variables phi_wide_1) v
      = nd_shape (NDArray (replicate 17 1) [1 :: int]) ! index_of (get_variables phi_wide_2) v"
    unfolding sw using ew by simp
  have w: "factor_product phi_wide_1 phi_wide_2 = Inl IndexError"
    using factor_product_failures [OF iw1 iw2 dw1 dw2] sw qw cw by blast
  have e: "factor_product phi_1 phi_2 = Inr phi_3"
    by code_simp
  from i1 i2 ic ib iw1 iw2 a b c e s c12 sw ew cw w show ?thesis
    by (simp add: v1 v2 vc vb)
qed

text \<open>
  The product of the two wide factors, evaluated: every check of the notebook passes,
  and the indexing that makes the new axes fails.
\<close>

theorem factor_product_too_many_axes:
  "factor_inv phi_wide_1 \<and> factor_inv phi_wide_2
   \<and> \<not> is_none phi_wide_1 \<and> \<not> is_none phi_wide_2
   \<and> set (get_variables phi_wide_1) \<inter> set (get_variables phi_wide_2) = {16}
   \<and> replicate 17 (1 :: nat) ! index_of (get_variables phi_wide_1) 16
       = replicate 17 1 ! index_of (get_variables phi_wide_2) 16
   \<and> factor_product phi_wide_1 phi_wide_2 = Inl IndexError"
proof -
  have "factor_product phi_wide_1 phi_wide_2 = Inl IndexError"
    by code_simp
  moreover have "factor_inv phi_wide_1" "factor_inv phi_wide_2"
    by (simp_all add: factor_inv_def nd_wf_def phi_wide_1_def phi_wide_2_def)
  moreover have "\<not> is_none phi_wide_1" "\<not> is_none phi_wide_2"
    by (simp_all add: is_none_def phi_wide_1_def phi_wide_2_def)
  moreover have "set (get_variables phi_wide_1) \<inter> set (get_variables phi_wide_2) = {16}"
    unfolding phi_wide_1_def phi_wide_2_def factor.simps set_upt by auto
  moreover have "replicate 17 (1 :: nat) ! index_of (get_variables phi_wide_1) 16
       = replicate 17 1 ! index_of (get_variables phi_wide_2) 16"
    unfolding phi_wide_1_def phi_wide_2_def by code_simp
  ultimately show ?thesis by blast
qed

section \<open>The variables and the entries of the product\<close>

lemma valid_index_map:
  "\<forall>v \<in> set vs. s v < c v \<Longrightarrow> valid_index (map c vs) (map s vs)"
  by (induction vs) simp_all

lemma product_named_entry:
  fixes x y :: "('v::linorder, 'a::times) factor"
  assumes "factor_inv x" and "factor_inv y"
    and "get_distribution x = Some dx" and "get_distribution y = Some dy"
    and "set (get_variables x) \<inter> set (get_variables y) \<noteq> {}"
    and "\<forall>v \<in> set (get_variables x) \<inter> set (get_variables y).
           nd_shape dx ! index_of (get_variables x) v
           = nd_shape dy ! index_of (get_variables y) v"
    and "card (set (get_variables x) \<union> set (get_variables y)) \<le> NPY_MAXDIMS"
  shows "\<exists>r dr. factor_product x y = Inr r \<and> get_distribution r = Some dr
    \<and> get_variables r =
        filter (\<lambda>v. v \<notin> set (get_variables y)) (get_variables x)
        @ sorted_list_of_set (set (get_variables x) \<inter> set (get_variables y))
        @ filter (\<lambda>v. v \<notin> set (get_variables x)) (get_variables y)
    \<and> set (get_variables r) = set (get_variables x) \<union> set (get_variables y)
    \<and> (\<forall>s. (\<forall>v \<in> set (get_variables x). s v < nd_shape dx ! index_of (get_variables x) v)
           \<and> (\<forall>v \<in> set (get_variables y). s v < nd_shape dy ! index_of (get_variables y) v)
           \<longrightarrow> item dr (map s (get_variables r))
               = item dx (map s (get_variables x)) * item dy (map s (get_variables y)))"
proof -
  let ?vx = "get_variables x"
  let ?vy = "get_variables y"
  let ?cx = "\<lambda>v. nd_shape dx ! index_of ?vx v"
  let ?cy = "\<lambda>v. nd_shape dy ! index_of ?vy v"
  define xy where "xy = filter (\<lambda>v. v \<in> set ?vy) (sort (remdups ?vx))"
  define xo where "xo = setdiff1d ?vx ?vy"
  define yo where "yo = setdiff1d ?vy ?vx"
  define sh where "sh = map ?cx xo @ map ?cx xy @ map ?cy yo"
  define F where "F = (\<lambda>j. item dx (map (\<lambda>v. j ! index_of (xo @ xy @ yo) v) ?vx)
              * item dy (map (\<lambda>v. j ! index_of (xo @ xy @ yo) v) ?vy))"
  have nb: "\<not> NPY_MAXDIMS < card (set ?vx \<union> set ?vy)"
    using assms(7) by simp
  have closed: "factor_product x y =
      Inr \<lparr>get_variables = xo @ xy @ yo, get_distribution = Some (tabulate sh F),
           get_shape = Some sh\<rparr>"
    using factor_product_closed [OF assms(1-6) xy_def xo_def yo_def sh_def, folded F_def]
    by (simp only: nb if_False)
  have sxy: "set xy = set ?vx \<inter> set ?vy"
    unfolding xy_def by (rule shared_set)
  have sets: "set (xo @ xy @ yo) = set ?vx \<union> set ?vy"
    using sxy by (auto simp: xo_def yo_def setdiff1d_def)
  have entry: "item (tabulate sh F) (map s (xo @ xy @ yo))
      = item dx (map s ?vx) * item dy (map s ?vy)"
    if sx: "\<forall>v \<in> set ?vx. s v < ?cx v" and sy: "\<forall>v \<in> set ?vy. s v < ?cy v" for s
  proof -
    have "valid_index (map ?cx xo) (map s xo)"
      using sx by (intro valid_index_map) (simp add: xo_def setdiff1d_def)
    moreover have "valid_index (map ?cx xy) (map s xy)"
      using sx sxy by (intro valid_index_map) simp
    moreover have "valid_index (map ?cy yo) (map s yo)"
      using sy by (intro valid_index_map) (simp add: yo_def setdiff1d_def)
    ultimately have "valid_index sh (map s (xo @ xy @ yo))"
      by (simp add: sh_def valid_index_append)
    then have t: "item (tabulate sh F) (map s (xo @ xy @ yo)) = F (map s (xo @ xy @ yo))"
      by (rule item_tabulate)
    have mp: "map (\<lambda>v. map s (xo @ xy @ yo) ! index_of (xo @ xy @ yo) v) vs = map s vs"
      if "set vs \<subseteq> set (xo @ xy @ yo)" for vs
    proof (rule map_cong [OF refl])
      fix v assume "v \<in> set vs"
      with that have m: "v \<in> set (xo @ xy @ yo)" by blast
      show "map s (xo @ xy @ yo) ! index_of (xo @ xy @ yo) v = s v"
        using index_of_less [OF m] nth_index_of [OF m] by (simp del: map_append)
    qed
    have mx: "map (\<lambda>v. map s (xo @ xy @ yo) ! index_of (xo @ xy @ yo) v) ?vx = map s ?vx"
      by (rule mp) (use sets in blast)
    have my: "map (\<lambda>v. map s (xo @ xy @ yo) ! index_of (xo @ xy @ yo) v) ?vy = map s ?vy"
      by (rule mp) (use sets in blast)
    have "F (map s (xo @ xy @ yo)) = item dx (map s ?vx) * item dy (map s ?vy)"
      unfolding F_def mx my by (rule refl)
    with t show ?thesis
      by (simp only:)
  qed
  have vars: "xo @ xy @ yo =
        filter (\<lambda>v. v \<notin> set ?vy) ?vx
        @ sorted_list_of_set (set ?vx \<inter> set ?vy)
        @ filter (\<lambda>v. v \<notin> set ?vx) ?vy"
    by (simp add: xo_def yo_def xy_def setdiff1d_def shared_sorted_list)
  show ?thesis
    using closed sets entry vars by (simp del: map_append)
qed

lemma product_returns_bounded:
  fixes x y :: "('v::linorder, 'a::times) factor"
  assumes "factor_inv x" and "factor_inv y"
    and "get_distribution x = Some dx" and "get_distribution y = Some dy"
    and "set (get_variables x) \<inter> set (get_variables y) \<noteq> {}"
    and "\<forall>v \<in> set (get_variables x) \<inter> set (get_variables y).
           nd_shape dx ! index_of (get_variables x) v
           = nd_shape dy ! index_of (get_variables y) v"
    and "factor_product x y = Inr r"
  shows "card (set (get_variables x) \<union> set (get_variables y)) \<le> NPY_MAXDIMS"
proof (rule ccontr)
  assume "\<not> card (set (get_variables x) \<union> set (get_variables y)) \<le> NPY_MAXDIMS"
  then have "factor_product x y = Inl IndexError"
    using factor_product_closed [OF assms(1-6) refl refl refl refl] by simp
  with assms(7) show False by simp
qed

text \<open>
  Claim C2. For two factors of the data model with tensors, a common variable and
  equal cardinalities of the common variables, the variables of a product that is
  returned are the variables of the first factor that the second lacks, in their order
  in the first, then the common variables, in the sorted order in which the
  intersection yields them, then the variables of the second factor that the first
  lacks, in their order in the second. The product is returned whenever the two
  factors have at most \<open>NPY_MAXDIMS\<close> variables between them.
\<close>

theorem factor_product_variables:
  fixes x y :: "('v::linorder, 'a::times) factor"
  assumes "factor_inv x" and "factor_inv y"
    and "get_distribution x = Some dx" and "get_distribution y = Some dy"
    and "set (get_variables x) \<inter> set (get_variables y) \<noteq> {}"
    and "\<forall>v \<in> set (get_variables x) \<inter> set (get_variables y).
           nd_shape dx ! index_of (get_variables x) v
           = nd_shape dy ! index_of (get_variables y) v"
  shows "(card (set (get_variables x) \<union> set (get_variables y)) \<le> NPY_MAXDIMS \<longrightarrow>
            (\<exists>r. factor_product x y = Inr r))
    \<and> (\<forall>r. factor_product x y = Inr r \<longrightarrow>
          get_variables r =
            filter (\<lambda>v. v \<notin> set (get_variables y)) (get_variables x)
            @ sorted_list_of_set (set (get_variables x) \<inter> set (get_variables y))
            @ filter (\<lambda>v. v \<notin> set (get_variables x)) (get_variables y))"
proof (intro conjI impI allI)
  assume "card (set (get_variables x) \<union> set (get_variables y)) \<le> NPY_MAXDIMS"
  from product_named_entry [OF assms this] show "\<exists>r. factor_product x y = Inr r"
    by blast
next
  fix r assume r: "factor_product x y = Inr r"
  from product_named_entry [OF assms product_returns_bounded [OF assms r]] r
  show "get_variables r =
            filter (\<lambda>v. v \<notin> set (get_variables y)) (get_variables x)
            @ sorted_list_of_set (set (get_variables x) \<inter> set (get_variables y))
            @ filter (\<lambda>v. v \<notin> set (get_variables x)) (get_variables y)"
    by auto
qed

theorem factor_product_variables_witness:
  "factor_inv phi_x \<and> factor_inv phi_y
   \<and> get_distribution phi_x = Some (NDArray [2, 3, 2] [1, 2, 3, 4, 5, 6, 7, 8, 9, 10, 11, 12])
   \<and> get_distribution phi_y = Some (NDArray [2, 2, 3]
        [1, 10, 100, 1000, 10000, 100000, 2, 20, 200, 2000, 20000, 200000])
   \<and> set (get_variables phi_x) \<inter> set (get_variables phi_y) = {''a'', ''b''}
   \<and> [2, 3, 2 :: nat] ! index_of (get_variables phi_x) ''a''
       = [2, 2, 3] ! index_of (get_variables phi_y) ''a''
   \<and> [2, 3, 2 :: nat] ! index_of (get_variables phi_x) ''b''
       = [2, 2, 3] ! index_of (get_variables phi_y) ''b''
   \<and> card (set (get_variables phi_x) \<union> set (get_variables phi_y)) \<le> NPY_MAXDIMS
   \<and> (\<exists>r. factor_product phi_x phi_y = Inr r
         \<and> get_variables r = [''c''] @ [''a'', ''b''] @ [''d''])"
proof -
  let ?dx = "NDArray [2, 3, 2] [1, 2, 3, 4, 5, 6, 7, 8, 9, 10, 11, 12 :: int]"
  let ?dy = "NDArray [2, 2, 3]
        [1, 10, 100, 1000, 10000, 100000, 2, 20, 200, 2000, 20000, 200000 :: int]"
  have i1: "factor_inv phi_x" and i2: "factor_inv phi_y"
    by (simp_all add: factor_inv_def nd_wf_def phi_x_def phi_y_def)
  have d1: "get_distribution phi_x = Some ?dx"
    by (simp add: phi_x_def)
  have d2: "get_distribution phi_y = Some ?dy"
    by (simp add: phi_y_def)
  have v1: "get_variables phi_x = [''c'', ''a'', ''b'']"
    and v2: "get_variables phi_y = [''d'', ''b'', ''a'']"
    by (simp_all add: phi_x_def phi_y_def)
  have s: "set (get_variables phi_x) \<inter> set (get_variables phi_y) = {''a'', ''b''}"
    by (auto simp: v1 v2)
  have h5: "set (get_variables phi_x) \<inter> set (get_variables phi_y) \<noteq> {}"
    by (simp add: s)
  have h6: "\<forall>v \<in> set (get_variables phi_x) \<inter> set (get_variables phi_y).
      nd_shape ?dx ! index_of (get_variables phi_x) v
      = nd_shape ?dy ! index_of (get_variables phi_y) v"
    unfolding s by (simp add: v1 v2)
  have cb: "card (set (get_variables phi_x) \<union> set (get_variables phi_y)) \<le> NPY_MAXDIMS"
    unfolding v1 v2 NPY_MAXDIMS_def by code_simp
  have "sorted_list_of_set (set [''a'', ''b'']) = [''a'', ''b'']"
    by code_simp
  then have srt: "sorted_list_of_set {''a'', ''b''} = [''a'', ''b'']"
    by simp
  note inst = factor_product_variables [OF i1 i2 d1 d2 h5 h6, unfolded s srt]
  from inst cb obtain r where r: "factor_product phi_x phi_y = Inr r"
    by blast
  with inst have "get_variables r = [''c''] @ [''a'', ''b''] @ [''d'']"
    by (simp add: v1 v2)
  with r have "\<exists>r. factor_product phi_x phi_y = Inr r
      \<and> get_variables r = [''c''] @ [''a'', ''b''] @ [''d'']"
    by blast
  with i1 i2 d1 d2 s cb show ?thesis
    by (simp add: v1 v2)
qed

text \<open>
  Claim C1. For two factors of the data model with tensors, a common variable and
  equal cardinalities of the common variables, the tensor of a product that is
  returned decomposes pointwise: at every joint assignment of value indices to the
  variables, the product's entry is the entry of the first factor times the entry of
  the second, each read at that assignment. The product's entry is the one at the
  values of the first factor's own variables, then those of the common variables, then
  those of the second factor's own variables. The product is returned whenever the two
  factors have at most \<open>NPY_MAXDIMS\<close> variables between them.
\<close>

theorem factor_product_value_decomposition:
  fixes x y :: "('v::linorder, 'a::times) factor"
  assumes "factor_inv x" and "factor_inv y"
    and "get_distribution x = Some dx" and "get_distribution y = Some dy"
    and "set (get_variables x) \<inter> set (get_variables y) \<noteq> {}"
    and "\<forall>v \<in> set (get_variables x) \<inter> set (get_variables y).
           nd_shape dx ! index_of (get_variables x) v
           = nd_shape dy ! index_of (get_variables y) v"
  shows "(card (set (get_variables x) \<union> set (get_variables y)) \<le> NPY_MAXDIMS \<longrightarrow>
            (\<exists>r. factor_product x y = Inr r))
    \<and> (\<forall>r. factor_product x y = Inr r \<longrightarrow>
         (\<exists>dr. get_distribution r = Some dr
           \<and> (\<forall>s. (\<forall>v \<in> set (get_variables x).
                      s v < nd_shape dx ! index_of (get_variables x) v)
                \<and> (\<forall>v \<in> set (get_variables y).
                      s v < nd_shape dy ! index_of (get_variables y) v)
                \<longrightarrow> item dr (map s (get_variables r))
                      = item dx (map s (get_variables x)) * item dy (map s (get_variables y))
                    \<and> map s (get_variables r)
                      = map s (filter (\<lambda>v. v \<notin> set (get_variables y)) (get_variables x))
                        @ map s (sorted_list_of_set
                                   (set (get_variables x) \<inter> set (get_variables y)))
                        @ map s (filter (\<lambda>v. v \<notin> set (get_variables x)) (get_variables y)))))"
proof (intro conjI impI allI)
  assume "card (set (get_variables x) \<union> set (get_variables y)) \<le> NPY_MAXDIMS"
  from product_named_entry [OF assms this] show "\<exists>r. factor_product x y = Inr r"
    by blast
next
  fix r assume r: "factor_product x y = Inr r"
  from product_named_entry [OF assms product_returns_bounded [OF assms r]] r
  obtain dr where d: "get_distribution r = Some dr"
    and v: "get_variables r =
        filter (\<lambda>v. v \<notin> set (get_variables y)) (get_variables x)
        @ sorted_list_of_set (set (get_variables x) \<inter> set (get_variables y))
        @ filter (\<lambda>v. v \<notin> set (get_variables x)) (get_variables y)"
    and e: "\<And>s. (\<forall>v \<in> set (get_variables x). s v < nd_shape dx ! index_of (get_variables x) v)
           \<and> (\<forall>v \<in> set (get_variables y). s v < nd_shape dy ! index_of (get_variables y) v)
           \<Longrightarrow> item dr (map s (get_variables r))
               = item dx (map s (get_variables x)) * item dy (map s (get_variables y))"
    by auto
  have "map s (get_variables r)
      = map s (filter (\<lambda>v. v \<notin> set (get_variables y)) (get_variables x))
        @ map s (sorted_list_of_set (set (get_variables x) \<inter> set (get_variables y)))
        @ map s (filter (\<lambda>v. v \<notin> set (get_variables x)) (get_variables y))" for s :: "'v \<Rightarrow> nat"
    unfolding v by simp
  with d e show "\<exists>dr. get_distribution r = Some dr
           \<and> (\<forall>s. (\<forall>v \<in> set (get_variables x).
                      s v < nd_shape dx ! index_of (get_variables x) v)
                \<and> (\<forall>v \<in> set (get_variables y).
                      s v < nd_shape dy ! index_of (get_variables y) v)
                \<longrightarrow> item dr (map s (get_variables r))
                      = item dx (map s (get_variables x)) * item dy (map s (get_variables y))
                    \<and> map s (get_variables r)
                      = map s (filter (\<lambda>v. v \<notin> set (get_variables y)) (get_variables x))
                        @ map s (sorted_list_of_set
                                   (set (get_variables x) \<inter> set (get_variables y)))
                        @ map s (filter (\<lambda>v. v \<notin> set (get_variables x)) (get_variables y)))"
    by blast
qed

theorem factor_product_value_decomposition_witness:
  "factor_inv phi_1 \<and> factor_inv phi_2
   \<and> get_distribution phi_1 = Some (NDArray [3, 2] [5/10, 8/10, 1/10, 0, 3/10, 9/10])
   \<and> get_distribution phi_2 = Some (NDArray [2, 2] [5/10, 7/10, 1/10, 2/10])
   \<and> set (get_variables phi_1) \<inter> set (get_variables phi_2) = {''b''}
   \<and> [3, 2 :: nat] ! index_of (get_variables phi_1) ''b''
       = [2, 2] ! index_of (get_variables phi_2) ''b''
   \<and> card (set (get_variables phi_1) \<union> set (get_variables phi_2)) \<le> NPY_MAXDIMS
   \<and> list_all (\<lambda>v. sigma_1 v < [3, 2] ! index_of (get_variables phi_1) v) (get_variables phi_1)
   \<and> list_all (\<lambda>v. sigma_1 v < [2, 2] ! index_of (get_variables phi_2) v) (get_variables phi_2)
   \<and> (\<exists>r dr. factor_product phi_1 phi_2 = Inr r \<and> get_distribution r = Some dr
        \<and> item dr (map sigma_1 (get_variables r))
            = item (NDArray [3, 2] [5/10, 8/10, 1/10, 0, 3/10, 9/10])
                (map sigma_1 (get_variables phi_1))
              * item (NDArray [2, 2] [5/10, 7/10, 1/10, 2/10])
                (map sigma_1 (get_variables phi_2)))
   \<and> item (NDArray [3, 2, 2]
              [25/100, 35/100, 8/100, 16/100, 5/100, 7/100, 0, 0,
               15/100, 21/100, 9/100, 18/100 :: rat]) [2, 1, 0]
       = item (NDArray [3, 2] [5/10, 8/10, 1/10, 0, 3/10, 9/10]) [2, 1]
         * item (NDArray [2, 2] [5/10, 7/10, 1/10, 2/10]) [1, 0]"
proof -
  let ?d1 = "NDArray [3, 2] [5/10, 8/10, 1/10, 0, 3/10, 9/10 :: rat]"
  let ?d2 = "NDArray [2, 2] [5/10, 7/10, 1/10, 2/10 :: rat]"
  have i1: "factor_inv phi_1" and i2: "factor_inv phi_2"
    by (simp_all add: factor_inv_def nd_wf_def phi_1_def phi_2_def)
  have d1: "get_distribution phi_1 = Some ?d1"
    by (simp add: phi_1_def)
  have d2: "get_distribution phi_2 = Some ?d2"
    by (simp add: phi_2_def)
  have v1: "get_variables phi_1 = [''a'', ''b'']" and v2: "get_variables phi_2 = [''b'', ''c'']"
    by (simp_all add: phi_1_def phi_2_def)
  have s: "set (get_variables phi_1) \<inter> set (get_variables phi_2) = {''b''}"
    by (auto simp: v1 v2)
  have h5: "set (get_variables phi_1) \<inter> set (get_variables phi_2) \<noteq> {}"
    by (simp add: s)
  have h6: "\<forall>v \<in> set (get_variables phi_1) \<inter> set (get_variables phi_2).
      nd_shape ?d1 ! index_of (get_variables phi_1) v
      = nd_shape ?d2 ! index_of (get_variables phi_2) v"
    unfolding s by (simp add: v1 v2)
  have cb: "card (set (get_variables phi_1) \<union> set (get_variables phi_2)) \<le> NPY_MAXDIMS"
    unfolding v1 v2 NPY_MAXDIMS_def by code_simp
  have a1: "\<forall>v \<in> set (get_variables phi_1).
      sigma_1 v < nd_shape ?d1 ! index_of (get_variables phi_1) v"
    by (simp add: v1 sigma_1_def)
  have a2: "\<forall>v \<in> set (get_variables phi_2).
      sigma_1 v < nd_shape ?d2 ! index_of (get_variables phi_2) v"
    by (simp add: v2 sigma_1_def)
  have b1: "list_all (\<lambda>v. sigma_1 v < [3, 2] ! index_of (get_variables phi_1) v)
      (get_variables phi_1)"
    using a1 by (simp add: list_all_iff)
  have b2: "list_all (\<lambda>v. sigma_1 v < [2, 2] ! index_of (get_variables phi_2) v)
      (get_variables phi_2)"
    using a2 by (simp add: list_all_iff)
  note inst = factor_product_value_decomposition [OF i1 i2 d1 d2 h5 h6]
  from inst cb obtain r where r: "factor_product phi_1 phi_2 = Inr r"
    by blast
  with inst obtain dr where dr: "get_distribution r = Some dr"
    and "\<forall>s. (\<forall>v \<in> set (get_variables phi_1). s v < nd_shape ?d1 ! index_of (get_variables phi_1) v)
           \<and> (\<forall>v \<in> set (get_variables phi_2). s v < nd_shape ?d2 ! index_of (get_variables phi_2) v)
           \<longrightarrow> item dr (map s (get_variables r))
               = item ?d1 (map s (get_variables phi_1)) * item ?d2 (map s (get_variables phi_2))"
    by meson
  with a1 a2 have ent: "item dr (map sigma_1 (get_variables r))
      = item ?d1 (map sigma_1 (get_variables phi_1)) * item ?d2 (map sigma_1 (get_variables phi_2))"
    by blast
  have e: "factor_product phi_1 phi_2 = Inr phi_3"
    by code_simp
  with r have "r = phi_3" by simp
  with dr ent have conc: "item (NDArray [3, 2, 2]
              [25/100, 35/100, 8/100, 16/100, 5/100, 7/100, 0, 0,
               15/100, 21/100, 9/100, 18/100 :: rat]) [2, 1, 0]
       = item ?d1 [2, 1] * item ?d2 [1, 0]"
    by (simp add: phi_3_def v1 v2 sigma_1_def)
  have ex: "\<exists>r dr. factor_product phi_1 phi_2 = Inr r \<and> get_distribution r = Some dr
        \<and> item dr (map sigma_1 (get_variables r))
            = item ?d1 (map sigma_1 (get_variables phi_1))
              * item ?d2 (map sigma_1 (get_variables phi_2))"
    using r dr ent by blast
  show ?thesis
    using i1 i2 d1 d2 s cb b1 b2 ex conc by (simp add: v1 v2)
qed

text \<open>
  Claim C9. Under the same conditions the product is symmetric in value when the
  multiplication of the entries is commutative: whenever one order of the arguments
  returns a product the other order returns one too, over the same set of variables,
  and at every joint assignment the two results hold the same entry, each read in its
  own order of the variables. Both orders return a product whenever the two factors
  have at most \<open>NPY_MAXDIMS\<close> variables between them.
\<close>

theorem factor_product_symmetric:
  fixes x y :: "('v::linorder, 'a::ab_semigroup_mult) factor"
  assumes "factor_inv x" and "factor_inv y"
    and "get_distribution x = Some dx" and "get_distribution y = Some dy"
    and "set (get_variables x) \<inter> set (get_variables y) \<noteq> {}"
    and "\<forall>v \<in> set (get_variables x) \<inter> set (get_variables y).
           nd_shape dx ! index_of (get_variables x) v
           = nd_shape dy ! index_of (get_variables y) v"
  shows "(card (set (get_variables x) \<union> set (get_variables y)) \<le> NPY_MAXDIMS \<longrightarrow>
            (\<exists>r1. factor_product x y = Inr r1))
    \<and> (\<forall>r1. factor_product x y = Inr r1 \<longrightarrow>
         (\<exists>d1 r2 d2. factor_product y x = Inr r2
           \<and> get_distribution r1 = Some d1 \<and> get_distribution r2 = Some d2
           \<and> set (get_variables r1) = set (get_variables r2)
           \<and> (\<forall>s. (\<forall>v \<in> set (get_variables x).
                      s v < nd_shape dx ! index_of (get_variables x) v)
                \<and> (\<forall>v \<in> set (get_variables y).
                      s v < nd_shape dy ! index_of (get_variables y) v)
                \<longrightarrow> item d1 (map s (get_variables r1)) = item d2 (map s (get_variables r2)))))"
proof (intro conjI impI allI)
  assume "card (set (get_variables x) \<union> set (get_variables y)) \<le> NPY_MAXDIMS"
  from product_named_entry [OF assms this] show "\<exists>r1. factor_product x y = Inr r1"
    by blast
next
  fix r1 assume r1: "factor_product x y = Inr r1"
  note b = product_returns_bounded [OF assms r1]
  have b': "card (set (get_variables y) \<union> set (get_variables x)) \<le> NPY_MAXDIMS"
    using b by (simp add: Un_commute)
  have ne': "set (get_variables y) \<inter> set (get_variables x) \<noteq> {}"
    using assms(5) by blast
  have eq': "\<forall>v \<in> set (get_variables y) \<inter> set (get_variables x).
           nd_shape dy ! index_of (get_variables y) v
           = nd_shape dx ! index_of (get_variables x) v"
    using assms(6) by auto
  from product_named_entry [OF assms b] r1 obtain d1 where
    1: "get_distribution r1 = Some d1"
      "set (get_variables r1) = set (get_variables x) \<union> set (get_variables y)"
      "\<And>s. (\<forall>v \<in> set (get_variables x). s v < nd_shape dx ! index_of (get_variables x) v)
           \<and> (\<forall>v \<in> set (get_variables y). s v < nd_shape dy ! index_of (get_variables y) v)
           \<Longrightarrow> item d1 (map s (get_variables r1))
               = item dx (map s (get_variables x)) * item dy (map s (get_variables y))"
    by auto
  from product_named_entry [OF assms(2,1,4,3) ne' eq' b'] obtain r2 d2 where
    2: "factor_product y x = Inr r2" "get_distribution r2 = Some d2"
      "set (get_variables r2) = set (get_variables y) \<union> set (get_variables x)"
      "\<And>s. (\<forall>v \<in> set (get_variables y). s v < nd_shape dy ! index_of (get_variables y) v)
           \<and> (\<forall>v \<in> set (get_variables x). s v < nd_shape dx ! index_of (get_variables x) v)
           \<Longrightarrow> item d2 (map s (get_variables r2))
               = item dy (map s (get_variables y)) * item dx (map s (get_variables x))"
    by blast
  have "item d1 (map s (get_variables r1)) = item d2 (map s (get_variables r2))"
    if "(\<forall>v \<in> set (get_variables x). s v < nd_shape dx ! index_of (get_variables x) v)
           \<and> (\<forall>v \<in> set (get_variables y). s v < nd_shape dy ! index_of (get_variables y) v)" for s
    using 1(3) [of s] 2(4) [of s] that by (simp add: mult.commute)
  with 1(1,2) 2(1-3)
  show "\<exists>d1 r2 d2. factor_product y x = Inr r2
           \<and> get_distribution r1 = Some d1 \<and> get_distribution r2 = Some d2
           \<and> set (get_variables r1) = set (get_variables r2)
           \<and> (\<forall>s. (\<forall>v \<in> set (get_variables x).
                      s v < nd_shape dx ! index_of (get_variables x) v)
                \<and> (\<forall>v \<in> set (get_variables y).
                      s v < nd_shape dy ! index_of (get_variables y) v)
                \<longrightarrow> item d1 (map s (get_variables r1)) = item d2 (map s (get_variables r2)))"
    by (intro exI [of _ d1] exI [of _ r2] exI [of _ d2]) (simp add: Un_commute)
qed

theorem factor_product_symmetric_witness:
  "factor_inv phi_1 \<and> factor_inv phi_2
   \<and> get_distribution phi_1 = Some (NDArray [3, 2] [5/10, 8/10, 1/10, 0, 3/10, 9/10])
   \<and> get_distribution phi_2 = Some (NDArray [2, 2] [5/10, 7/10, 1/10, 2/10])
   \<and> set (get_variables phi_1) \<inter> set (get_variables phi_2) = {''b''}
   \<and> [3, 2 :: nat] ! index_of (get_variables phi_1) ''b''
       = [2, 2] ! index_of (get_variables phi_2) ''b''
   \<and> card (set (get_variables phi_1) \<union> set (get_variables phi_2)) \<le> NPY_MAXDIMS
   \<and> list_all (\<lambda>v. sigma_1 v < [3, 2] ! index_of (get_variables phi_1) v) (get_variables phi_1)
   \<and> list_all (\<lambda>v. sigma_1 v < [2, 2] ! index_of (get_variables phi_2) v) (get_variables phi_2)
   \<and> factor_product phi_1 phi_2 = Inr phi_3
   \<and> factor_product phi_2 phi_1 = Inr phi_3_swapped
   \<and> get_variables phi_3 \<noteq> get_variables phi_3_swapped
   \<and> item (NDArray [3, 2, 2]
              [25/100, 35/100, 8/100, 16/100, 5/100, 7/100, 0, 0,
               15/100, 21/100, 9/100, 18/100 :: rat]) (map sigma_1 (get_variables phi_3))
       = item (NDArray [2, 2, 3]
              [25/100, 5/100, 15/100, 8/100, 0, 9/100,
               35/100, 7/100, 21/100, 16/100, 0, 18/100]) (map sigma_1 (get_variables phi_3_swapped))"
proof -
  let ?d1 = "NDArray [3, 2] [5/10, 8/10, 1/10, 0, 3/10, 9/10 :: rat]"
  let ?d2 = "NDArray [2, 2] [5/10, 7/10, 1/10, 2/10 :: rat]"
  have i1: "factor_inv phi_1" and i2: "factor_inv phi_2"
    by (simp_all add: factor_inv_def nd_wf_def phi_1_def phi_2_def)
  have d1: "get_distribution phi_1 = Some ?d1"
    by (simp add: phi_1_def)
  have d2: "get_distribution phi_2 = Some ?d2"
    by (simp add: phi_2_def)
  have v1: "get_variables phi_1 = [''a'', ''b'']" and v2: "get_variables phi_2 = [''b'', ''c'']"
    by (simp_all add: phi_1_def phi_2_def)
  have s: "set (get_variables phi_1) \<inter> set (get_variables phi_2) = {''b''}"
    by (auto simp: v1 v2)
  have h5: "set (get_variables phi_1) \<inter> set (get_variables phi_2) \<noteq> {}"
    by (simp add: s)
  have h6: "\<forall>v \<in> set (get_variables phi_1) \<inter> set (get_variables phi_2).
      nd_shape ?d1 ! index_of (get_variables phi_1) v
      = nd_shape ?d2 ! index_of (get_variables phi_2) v"
    unfolding s by (simp add: v1 v2)
  have cb: "card (set (get_variables phi_1) \<union> set (get_variables phi_2)) \<le> NPY_MAXDIMS"
    unfolding v1 v2 NPY_MAXDIMS_def by code_simp
  have a1: "\<forall>v \<in> set (get_variables phi_1).
      sigma_1 v < nd_shape ?d1 ! index_of (get_variables phi_1) v"
    by (simp add: v1 sigma_1_def)
  have a2: "\<forall>v \<in> set (get_variables phi_2).
      sigma_1 v < nd_shape ?d2 ! index_of (get_variables phi_2) v"
    by (simp add: v2 sigma_1_def)
  have b1: "list_all (\<lambda>v. sigma_1 v < [3, 2] ! index_of (get_variables phi_1) v)
      (get_variables phi_1)"
    using a1 by (simp add: list_all_iff)
  have b2: "list_all (\<lambda>v. sigma_1 v < [2, 2] ! index_of (get_variables phi_2) v)
      (get_variables phi_2)"
    using a2 by (simp add: list_all_iff)
  note inst = factor_product_symmetric [OF i1 i2 d1 d2 h5 h6]
  from inst cb obtain r1 where r1: "factor_product phi_1 phi_2 = Inr r1"
    by blast
  with inst obtain e1 r2 e2 where r: "factor_product phi_2 phi_1 = Inr r2"
      "get_distribution r1 = Some e1" "get_distribution r2 = Some e2"
    and "\<forall>s. (\<forall>v \<in> set (get_variables phi_1). s v < nd_shape ?d1 ! index_of (get_variables phi_1) v)
           \<and> (\<forall>v \<in> set (get_variables phi_2). s v < nd_shape ?d2 ! index_of (get_variables phi_2) v)
           \<longrightarrow> item e1 (map s (get_variables r1)) = item e2 (map s (get_variables r2))"
    by meson
  with a1 a2 have ent: "item e1 (map sigma_1 (get_variables r1))
      = item e2 (map sigma_1 (get_variables r2))"
    by blast
  have p1: "factor_product phi_1 phi_2 = Inr phi_3"
    by code_simp
  have p2: "factor_product phi_2 phi_1 = Inr phi_3_swapped"
    by code_simp
  from r1 r p1 p2 have "r1 = phi_3" "r2 = phi_3_swapped"
    by simp_all
  with r(2,3) ent have conc: "item (NDArray [3, 2, 2]
              [25/100, 35/100, 8/100, 16/100, 5/100, 7/100, 0, 0,
               15/100, 21/100, 9/100, 18/100 :: rat]) (map sigma_1 (get_variables phi_3))
       = item (NDArray [2, 2, 3]
              [25/100, 5/100, 15/100, 8/100, 0, 9/100,
               35/100, 7/100, 21/100, 16/100, 0, 18/100]) (map sigma_1 (get_variables phi_3_swapped))"
    by (simp add: phi_3_def phi_3_swapped_def)
  have ne: "get_variables phi_3 \<noteq> get_variables phi_3_swapped"
    by (simp add: phi_3_def phi_3_swapped_def)
  show ?thesis
    using i1 i2 d1 d2 s cb b1 b2 p1 p2 ne conc by (simp add: v1 v2)
qed

end
